theory Spec2Isabelle
  imports Main "HOL-Library.Log_Nat"
begin

section \<open>Data model of demo_numerique.py\<close>

text \<open>
  Python integers are unbounded, so every index and every element is an \<open>int\<close>.
  Reading a list at an index follows Python: a negative index counts from the end and
  an index outside the list raises IndexError.
\<close>

datatype py_error = IndexError

definition py_index :: "int list \<Rightarrow> int \<Rightarrow> py_error + int" where
  "py_index arr i =
     (let n = int (length arr); j = (if i < 0 then n + i else i)
      in if 0 \<le> j \<and> j < n then Inr (arr ! nat j) else Inl IndexError)"

text \<open>
  The explanation of a step is an f-string of the source. Each template is one
  constructor, carrying the values the f-string interpolates, in the order they occur.
\<close>

datatype narration =
    TrouveIndice int int int        \<comment> \<open>steps_find_any, equality: arr[m], x, m\<close>
  | VaDroite int int int            \<comment> \<open>steps_find_any, below: arr[m], x, m+1\<close>
  | VaGauche int int int            \<comment> \<open>steps_find_any, above: arr[m], x, m-1\<close>
  | NonTrouve                       \<comment> \<open>steps_find_any, final\<close>
  | TrouveEncoreGauche int int      \<comment> \<open>steps_first_occurrence, equality: x, m\<close>
  | GeSansEgalite int int           \<comment> \<open>steps_first_occurrence, above: arr[m], x\<close>
  | LtDroite int int                \<comment> \<open>steps_first_occurrence, below: arr[m], x\<close>
  | PremiereOccurrence int          \<comment> \<open>steps_first_occurrence, final: res\<close>
  | TrouveEncoreDroite int int      \<comment> \<open>steps_last_occurrence, equality: x, m\<close>
  | LeSansEgalite int int           \<comment> \<open>steps_last_occurrence, below: arr[m], x\<close>
  | GtGauche int int                \<comment> \<open>steps_last_occurrence, above: arr[m], x\<close>
  | DerniereOccurrence int          \<comment> \<open>steps_last_occurrence, final: res\<close>
  | LtAffecteG int int int          \<comment> \<open>steps_bisect_left, below: arr[m], x, m+1\<close>
  | GeAffecteD int int int          \<comment> \<open>steps_bisect_left, otherwise: arr[m], x, m\<close>
  | InsertionGauche int             \<comment> \<open>steps_bisect_left, final: g\<close>
  | LeAffecteG int int int          \<comment> \<open>steps_bisect_right, not above: arr[m], x, m+1\<close>
  | GtAffecteD int int int          \<comment> \<open>steps_bisect_right, above: arr[m], x, m\<close>
  | InsertionDroite int             \<comment> \<open>steps_bisect_right, final: g\<close>

record Step =
  left :: int
  right :: int
  mid :: int
  relation :: string
  explanation :: narration
  "done" :: bool
  payload :: "int option"

text \<open>The constructor call of the dataclass, with its positional arguments.\<close>

definition mk_step ::
  "int \<Rightarrow> int \<Rightarrow> int \<Rightarrow> string \<Rightarrow> narration \<Rightarrow> bool \<Rightarrow> int option \<Rightarrow> Step" where
  "mk_step g d m r e dn p =
     \<lparr>left = g, right = d, mid = m, relation = r, explanation = e, done = dn, payload = p\<rparr>"

text \<open>
  One run of a generator to its end: the steps it yields, in order, and the exception
  that ended it, if one did (\<open>None\<close> when the generator returned).
\<close>

type_synonym run = "Step list \<times> py_error option"

definition yield :: "Step \<Rightarrow> run \<Rightarrow> run" where
  "yield st r = (st # fst r, snd r)"

definition returned :: run where
  "returned = ([], None)"

definition raised :: "py_error \<Rightarrow> run" where
  "raised e = ([], Some e)"

section \<open>The five generators\<close>

function find_any_loop :: "int list \<Rightarrow> int \<Rightarrow> int \<Rightarrow> int \<Rightarrow> run" where
  "find_any_loop arr x g d =
     (if g \<le> d then
        (let m = (g + d) div 2 in
         case py_index arr m of
           Inl e \<Rightarrow> raised e
         | Inr a \<Rightarrow>
             if a = x then
               yield (mk_step g d m ''=='' (TrouveIndice a x m) True (Some m)) returned
             else if a < x then
               yield (mk_step g d m ''<'' (VaDroite a x (m + 1)) False None)
                 (find_any_loop arr x (m + 1) d)
             else
               yield (mk_step g d m ''>'' (VaGauche a x (m - 1)) False None)
                 (find_any_loop arr x g (m - 1)))
      else
        yield (mk_step g d (if g + d \<ge> 0 then (g + d) div 2 else 0) ''final'' NonTrouve
                 True (Some (- 1))) returned)"
  by pat_completeness auto
termination
  by (relation "measure (\<lambda>(arr, x, g, d). nat (d - g + 1))") auto

definition steps_find_any :: "int list \<Rightarrow> int \<Rightarrow> run" where
  "steps_find_any arr x = find_any_loop arr x 0 (int (length arr) - 1)"

function first_occurrence_loop :: "int list \<Rightarrow> int \<Rightarrow> int \<Rightarrow> int \<Rightarrow> int \<Rightarrow> run" where
  "first_occurrence_loop arr x g d res =
     (if g \<le> d then
        (let m = (g + d) div 2 in
         case py_index arr m of
           Inl e \<Rightarrow> raised e
         | Inr a \<Rightarrow>
             if a \<ge> x then
               (if a = x then
                  yield (mk_step g d m ''=='' (TrouveEncoreGauche x m) False None)
                    (first_occurrence_loop arr x g (m - 1) m)
                else
                  yield (mk_step g d m ''>='' (GeSansEgalite a x) False None)
                    (first_occurrence_loop arr x g (m - 1) res))
             else
               yield (mk_step g d m ''<'' (LtDroite a x) False None)
                 (first_occurrence_loop arr x (m + 1) d res))
      else
        yield (mk_step g d g ''final'' (PremiereOccurrence res) True (Some res)) returned)"
  by pat_completeness auto
termination
  by (relation "measure (\<lambda>(arr, x, g, d, res). nat (d - g + 1))") auto

definition steps_first_occurrence :: "int list \<Rightarrow> int \<Rightarrow> run" where
  "steps_first_occurrence arr x = first_occurrence_loop arr x 0 (int (length arr) - 1) (- 1)"

function last_occurrence_loop :: "int list \<Rightarrow> int \<Rightarrow> int \<Rightarrow> int \<Rightarrow> int \<Rightarrow> run" where
  "last_occurrence_loop arr x g d res =
     (if g \<le> d then
        (let m = (g + d) div 2 in
         case py_index arr m of
           Inl e \<Rightarrow> raised e
         | Inr a \<Rightarrow>
             if a \<le> x then
               (if a = x then
                  yield (mk_step g d m ''=='' (TrouveEncoreDroite x m) False None)
                    (last_occurrence_loop arr x (m + 1) d m)
                else
                  yield (mk_step g d m ''<='' (LeSansEgalite a x) False None)
                    (last_occurrence_loop arr x (m + 1) d res))
             else
               yield (mk_step g d m ''>'' (GtGauche a x) False None)
                 (last_occurrence_loop arr x g (m - 1) res))
      else
        yield (mk_step g d d ''final'' (DerniereOccurrence res) True (Some res)) returned)"
  by pat_completeness auto
termination
  by (relation "measure (\<lambda>(arr, x, g, d, res). nat (d - g + 1))") auto

definition steps_last_occurrence :: "int list \<Rightarrow> int \<Rightarrow> run" where
  "steps_last_occurrence arr x = last_occurrence_loop arr x 0 (int (length arr) - 1) (- 1)"

function bisect_left_loop :: "int list \<Rightarrow> int \<Rightarrow> int \<Rightarrow> int \<Rightarrow> run" where
  "bisect_left_loop arr x g d =
     (if g < d then
        (let m = (g + d) div 2 in
         case py_index arr m of
           Inl e \<Rightarrow> raised e
         | Inr a \<Rightarrow>
             if a < x then
               yield (mk_step g (d - 1) m ''<'' (LtAffecteG a x (m + 1)) False None)
                 (bisect_left_loop arr x (m + 1) d)
             else
               yield (mk_step g (d - 1) m ''>='' (GeAffecteD a x m) False None)
                 (bisect_left_loop arr x g m))
      else
        yield (mk_step g (d - 1) g ''final'' (InsertionGauche g) True (Some g)) returned)"
  by pat_completeness auto
termination
  by (relation "measure (\<lambda>(arr, x, g, d). nat (d - g))") auto

definition steps_bisect_left :: "int list \<Rightarrow> int \<Rightarrow> run" where
  "steps_bisect_left arr x = bisect_left_loop arr x 0 (int (length arr))"

function bisect_right_loop :: "int list \<Rightarrow> int \<Rightarrow> int \<Rightarrow> int \<Rightarrow> run" where
  "bisect_right_loop arr x g d =
     (if g < d then
        (let m = (g + d) div 2 in
         case py_index arr m of
           Inl e \<Rightarrow> raised e
         | Inr a \<Rightarrow>
             if a \<le> x then
               yield (mk_step g (d - 1) m ''<='' (LeAffecteG a x (m + 1)) False None)
                 (bisect_right_loop arr x (m + 1) d)
             else
               yield (mk_step g (d - 1) m ''>'' (GtAffecteD a x m) False None)
                 (bisect_right_loop arr x g m))
      else
        yield (mk_step g (d - 1) g ''final'' (InsertionDroite g) True (Some g)) returned)"
  by pat_completeness auto
termination
  by (relation "measure (\<lambda>(arr, x, g, d). nat (d - g))") auto

definition steps_bisect_right :: "int list \<Rightarrow> int \<Rightarrow> run" where
  "steps_bisect_right arr x = bisect_right_loop arr x 0 (int (length arr))"

section \<open>The runners\<close>

text \<open>
  \<open>run_steps\<close> pulls every step of a generator, draws it, and keeps as result the
  payload of the latest step whose \<open>done\<close> flag is set (\<open>None\<close> when there is none).
  Drawing and pausing do not change the result and are left out; an exception of the
  generator is not caught and ends the runner.
\<close>

definition run_steps ::
  "int list \<Rightarrow> int \<Rightarrow> (int list \<Rightarrow> int \<Rightarrow> run) \<Rightarrow> py_error + int option" where
  "run_steps arr x generator =
     (case generator arr x of
        (sts, Some e) \<Rightarrow> Inl e
      | (sts, None) \<Rightarrow>
          Inr (foldl (\<lambda>result st. if done st then payload st else result) None sts))"

text \<open>
  \<open>run_count_occurrences\<close> returns nothing and prints a summary; the model returns
  what the summary shows: the number of occurrences and the two ends of the range
  (in the absent branch the literals 0 and [-1, -1] of the message).
\<close>

record bilan =
  nb_occurrences :: int
  plage :: "int \<times> int option"

definition run_count_occurrences :: "int list \<Rightarrow> int \<Rightarrow> py_error + bilan" where
  "run_count_occurrences arr x =
     (case run_steps arr x steps_first_occurrence of
        Inl e \<Rightarrow> Inl e
      | Inr first_res \<Rightarrow>
          (case run_steps arr x steps_last_occurrence of
             Inl e \<Rightarrow> Inl e
           | Inr last_res \<Rightarrow>
               (case first_res of
                  None \<Rightarrow> Inr \<lparr>nb_occurrences = 0, plage = (- 1, Some (- 1))\<rparr>
                | Some f \<Rightarrow>
                    if f = - 1 then Inr \<lparr>nb_occurrences = 0, plage = (- 1, Some (- 1))\<rparr>
                    else
                      (let count =
                         (case last_res of
                            None \<Rightarrow> 0
                          | Some l \<Rightarrow> if l < f then 0 else l - f + 1)
                       in Inr \<lparr>nb_occurrences = count, plage = (f, last_res)\<rparr>))))"

section \<open>Notions used to state the properties\<close>

text \<open>The trace of a run is the list of its steps; its terminal step is the last one.\<close>

definition trace :: "run \<Rightarrow> Step list" where
  "trace r = fst r"

definition terminal :: "run \<Rightarrow> Step" where
  "terminal r = last (fst r)"

text \<open>The number of indices between the bounds a step shows, both included.\<close>

definition interval_size :: "Step \<Rightarrow> int" where
  "interval_size st = right st - left st + 1"

text \<open>
  A run has a single terminal step when its trace is not empty, exactly one of its steps
  has the \<open>done\<close> flag, and that step is the last one.
\<close>

definition single_terminal_step :: "run \<Rightarrow> bool" where
  "single_terminal_step r \<longleftrightarrow>
     trace r \<noteq> [] \<and> length (filter done (trace r)) = 1 \<and> done (terminal r)"

text \<open>
  A run is logarithmic for a list when the generator returns (no exception), its trace
  has at most \<open>floorlog 2 n + 1\<close> steps for a list of length \<open>n\<close>
  (\<open>floorlog 2 n\<close> is the number of binary digits of \<open>n\<close>), and every step shows a
  strictly smaller interval than each step before it.
\<close>

definition logarithmic_run :: "int list \<Rightarrow> run \<Rightarrow> bool" where
  "logarithmic_run arr r \<longleftrightarrow>
     snd r = None \<and>
     length (trace r) \<le> floorlog 2 (length arr) + 1 \<and>
     sorted_wrt (\<lambda>a b. interval_size b < interval_size a) (trace r)"

text \<open>
  Every step yielded inside a loop body records in \<open>mid\<close> the index \<open>m\<close> at which that
  iteration read the list; the step after the loop (relation \<open>final\<close>) reads nothing.
  A run reads in range when it raises nothing and each of these indices is a position
  of the list.
\<close>

definition reads_in_range :: "int list \<Rightarrow> run \<Rightarrow> bool" where
  "reads_in_range arr r \<longleftrightarrow>
     snd r = None \<and>
     list_all (\<lambda>st. relation st = ''final'' \<or> (0 \<le> mid st \<and> mid st < int (length arr)))
       (trace r)"

section \<open>Basic facts\<close>

declare find_any_loop.simps [simp del]
declare first_occurrence_loop.simps [simp del]
declare last_occurrence_loop.simps [simp del]
declare bisect_left_loop.simps [simp del]
declare bisect_right_loop.simps [simp del]

lemma fst_yield [simp]: "fst (yield st r) = st # fst r"
  by (simp add: yield_def)

lemma snd_yield [simp]: "snd (yield st r) = snd r"
  by (simp add: yield_def)

lemma fst_returned [simp]: "fst returned = []"
  by (simp add: returned_def)

lemma snd_returned [simp]: "snd returned = None"
  by (simp add: returned_def)

lemma mk_step_sel [simp]:
  "left (mk_step g d m r e dn p) = g"
  "right (mk_step g d m r e dn p) = d"
  "mid (mk_step g d m r e dn p) = m"
  "relation (mk_step g d m r e dn p) = r"
  "explanation (mk_step g d m r e dn p) = e"
  "done (mk_step g d m r e dn p) = dn"
  "payload (mk_step g d m r e dn p) = p"
  by (simp_all add: mk_step_def)

lemma interval_size_mk_step [simp]:
  "interval_size (mk_step g d m r e dn p) = d - g + 1"
  by (simp add: interval_size_def)

lemma py_index_in_range:
  "0 \<le> i \<Longrightarrow> i < int (length arr) \<Longrightarrow> py_index arr i = Inr (arr ! nat i)"
  by (simp add: py_index_def)

lemma mid_bounds:
  fixes g d :: int
  assumes "g \<le> d"
  shows "g \<le> (g + d) div 2" "(g + d) div 2 \<le> d"
  using assms by linarith+

lemma closed_interval_induct [consumes 2, case_names exit step]:
  fixes g d n :: int
  assumes "0 \<le> g" "d < n"
    and "\<And>g d. 0 \<le> g \<Longrightarrow> d < n \<Longrightarrow> d < g \<Longrightarrow> P g d"
    and "\<And>g d m. 0 \<le> g \<Longrightarrow> d < n \<Longrightarrow> g \<le> d \<Longrightarrow> m = (g + d) div 2 \<Longrightarrow>
           g \<le> m \<Longrightarrow> m \<le> d \<Longrightarrow> P (m + 1) d \<Longrightarrow> P g (m - 1) \<Longrightarrow> P g d"
  shows "P g d"
  using assms(1,2)
proof (induction "nat (d - g + 1)" arbitrary: g d rule: less_induct)
  case less
  show ?case
  proof (cases "d < g")
    case True
    then show ?thesis using assms(3) less.prems by blast
  next
    case False
    define m where "m = (g + d) div 2"
    have mb: "g \<le> m" "m \<le> d" using False mid_bounds[of g d] by (simp_all add: m_def)
    have "P (m + 1) d"
      using less.hyps[of d "m + 1"] less.prems mb by simp
    moreover have "P g (m - 1)"
      using less.hyps[of "m - 1" g] less.prems mb by simp
    ultimately show ?thesis using assms(4)[of g d m] less.prems False m_def mb by simp
  qed
qed

lemma floorlog_half:
  fixes k s :: nat
  assumes "0 < s" "k \<le> s div 2"
  shows "floorlog 2 k + 1 \<le> floorlog 2 s"
proof -
  have "floorlog 2 k \<le> floorlog 2 (s div 2)" using assms(2) by (rule floorlog_mono)
  moreover have "floorlog 2 s = floorlog 2 (s div 2) + 1"
    using assms(1) by (subst compute_floorlog) simp
  ultimately show ?thesis by simp
qed

lemma closed_right_half:
  fixes g d m :: int
  assumes "g \<le> d" "m = (g + d) div 2"
  shows "nat (d - (m + 1) + 1) \<le> nat (d - g + 1) div 2"
  using assms by (simp add: nat_div_distrib le_nat_iff) 

lemma closed_left_half:
  fixes g d m :: int
  assumes "g \<le> d" "m = (g + d) div 2"
  shows "nat (m - 1 - g + 1) \<le> nat (d - g + 1) div 2"
  using assms by (simp add: nat_div_distrib le_nat_iff)

lemma sorted_nth_int:
  fixes arr :: "int list"
  assumes "sorted arr" "0 \<le> i" "i \<le> j" "j < int (length arr)"
  shows "arr ! nat i \<le> arr ! nat j"
  using assms by (intro sorted_nth_mono) auto


lemma not_in_set_int:
  fixes arr :: "int list"
  assumes "\<And>i. 0 \<le> i \<Longrightarrow> i < int (length arr) \<Longrightarrow> arr ! nat i \<noteq> x"
  shows "x \<notin> set arr"
proof
  assume "x \<in> set arr"
  then obtain k where "k < length arr" "arr ! k = x" by (auto simp: in_set_conv_nth)
  then show False using assms[of "int k"] by simp
qed

lemma in_set_int:
  fixes arr :: "int list"
  assumes "0 \<le> i" "i < int (length arr)"
  shows "arr ! nat i \<in> set arr"
  using assms by (simp add: nat_less_iff)

lemma sorted_below:
  fixes arr :: "int list"
  assumes "sorted arr" "0 \<le> m" "m < int (length arr)" "arr ! nat m < x"
  shows "\<forall>i. 0 \<le> i \<and> i < m + 1 \<longrightarrow> arr ! nat i < x"
proof (intro allI impI)
  fix i assume "0 \<le> i \<and> i < m + 1"
  then have "arr ! nat i \<le> arr ! nat m" using sorted_nth_int[OF assms(1), of i m] assms by simp
  then show "arr ! nat i < x" using assms(4) by simp
qed

lemma sorted_above:
  fixes arr :: "int list"
  assumes "sorted arr" "0 \<le> m" "m < int (length arr)" "x < arr ! nat m"
  shows "\<forall>i. m - 1 < i \<and> i < int (length arr) \<longrightarrow> x < arr ! nat i"
proof (intro allI impI)
  fix i assume "m - 1 < i \<and> i < int (length arr)"
  then have "arr ! nat m \<le> arr ! nat i" using sorted_nth_int[OF assms(1), of m i] assms by simp
  then show "x < arr ! nat i" using assms(4) by simp
qed

lemma exhausted_not_in_set:
  fixes arr :: "int list"
  assumes "\<forall>i. 0 \<le> i \<and> i < e \<longrightarrow> arr ! nat i < x"
    and "\<forall>i. e - 1 < i \<and> i < int (length arr) \<longrightarrow> x < arr ! nat i"
  shows "x \<notin> set arr"
proof (rule not_in_set_int)
  fix i :: int assume i: "0 \<le> i" "i < int (length arr)"
  show "arr ! nat i \<noteq> x"
  proof (cases "i < e")
    case True
    then have "arr ! nat i < x" using assms(1) i by blast
    then show ?thesis by simp
  next
    case False
    then have "x < arr ! nat i" using assms(2) i by simp
    then show ?thesis by simp
  qed
qed


lemma half_open_induct [consumes 2, case_names exit step]:
  fixes g d n :: int
  assumes "0 \<le> g" "d \<le> n"
    and "\<And>g d. 0 \<le> g \<Longrightarrow> d \<le> n \<Longrightarrow> d \<le> g \<Longrightarrow> P g d"
    and "\<And>g d m. 0 \<le> g \<Longrightarrow> d \<le> n \<Longrightarrow> g < d \<Longrightarrow> m = (g + d) div 2 \<Longrightarrow>
           g \<le> m \<Longrightarrow> m < d \<Longrightarrow> P (m + 1) d \<Longrightarrow> P g m \<Longrightarrow> P g d"
  shows "P g d"
  using assms(1,2)
proof (induction "nat (d - g)" arbitrary: g d rule: less_induct)
  case less
  show ?case
  proof (cases "d \<le> g")
    case True
    then show ?thesis using assms(3) less.prems by blast
  next
    case False
    define m where "m = (g + d) div 2"
    have mb: "g \<le> m" "m < d" using False by (simp_all add: m_def)
    have "P (m + 1) d"
      using less.hyps[of d "m + 1"] less.prems mb by simp
    moreover have "P g m"
      using less.hyps[of m g] less.prems mb by simp
    ultimately show ?thesis using assms(4)[of g d m] less.prems False m_def mb by simp
  qed
qed

lemma open_right_half:
  fixes g d m :: int
  assumes "g < d" "m = (g + d) div 2"
  shows "nat (d - (m + 1)) \<le> nat (d - g) div 2"
  using assms by (simp add: nat_div_distrib le_nat_iff)

lemma open_left_half:
  fixes g d m :: int
  assumes "g < d" "m = (g + d) div 2"
  shows "nat (m - g) \<le> nat (d - g) div 2"
  using assms by (simp add: nat_div_distrib le_nat_iff)

lemma sorted_below_eq:
  fixes arr :: "int list"
  assumes "sorted arr" "0 \<le> m" "m < int (length arr)" "arr ! nat m \<le> x"
  shows "\<forall>i. 0 \<le> i \<and> i < m + 1 \<longrightarrow> arr ! nat i \<le> x"
proof (intro allI impI)
  fix i assume "0 \<le> i \<and> i < m + 1"
  then have "arr ! nat i \<le> arr ! nat m" using sorted_nth_int[OF assms(1), of i m] assms by simp
  then show "arr ! nat i \<le> x" using assms(4) by simp
qed

lemma sorted_above_eq:
  fixes arr :: "int list"
  assumes "sorted arr" "0 \<le> m" "m < int (length arr)" "x \<le> arr ! nat m"
  shows "\<forall>i. m - 1 < i \<and> i < int (length arr) \<longrightarrow> x \<le> arr ! nat i"
proof (intro allI impI)
  fix i assume "m - 1 < i \<and> i < int (length arr)"
  then have "arr ! nat m \<le> arr ! nat i" using sorted_nth_int[OF assms(1), of m i] assms by simp
  then show "x \<le> arr ! nat i" using assms(4) by simp
qed

text \<open>
  A position that splits the list into a prefix where \<open>P\<close> holds and a suffix where it
  does not is the number of elements that satisfy \<open>P\<close>.
\<close>

lemma count_split:
  fixes arr :: "int list"
  assumes "0 \<le> e" "e \<le> int (length arr)"
    and pre: "\<forall>i. 0 \<le> i \<and> i < e \<longrightarrow> P (arr ! nat i)"
    and suf: "\<forall>i. e - 1 < i \<and> i < int (length arr) \<longrightarrow> \<not> P (arr ! nat i)"
  shows "e = int (length (filter P arr))"
proof -
  define k where "k = nat e"
  have k: "k \<le> length arr" "e = int k" using assms(1,2) by (simp_all add: k_def)
  have "\<forall>y \<in> set (take k arr). P y"
  proof
    fix y assume "y \<in> set (take k arr)"
    then obtain j where j: "j < k" "j < length arr" "y = arr ! j"
      by (auto simp: in_set_conv_nth)
    then show "P y" using pre[rule_format, of "int j"] k by simp
  qed
  then have a: "filter P (take k arr) = take k arr" by simp
  have "\<forall>y \<in> set (drop k arr). \<not> P y"
  proof
    fix y assume "y \<in> set (drop k arr)"
    then obtain j where j: "j < length arr - k" "y = arr ! (k + j)"
      by (auto simp: in_set_conv_nth)
    have "e - 1 < int (k + j) \<and> int (k + j) < int (length arr)" using j(1) k by linarith
    then have "\<not> P (arr ! nat (int (k + j)))" using suf by blast
    then show "\<not> P y" unfolding j(2) nat_int .
  qed
  then have b: "filter P (drop k arr) = []" by simp
  have "filter P arr = filter P (take k arr @ drop k arr)" by simp
  also have "\<dots> = take k arr" unfolding filter_append a b by simp
  finally have "length (filter P arr) = k" using k(1) by simp
  then show ?thesis using k(2) by simp
qed

text \<open>The runner returns the payload of the terminal step of a well-formed run.\<close>

lemma run_steps_terminal:
  assumes "snd (generator arr x) = None" "trace (generator arr x) \<noteq> []"
    "done (terminal (generator arr x))"
  shows "run_steps arr x generator = Inr (payload (terminal (generator arr x)))"
proof -
  obtain sts where g: "generator arr x = (sts, None)"
    using assms(1) by (cases "generator arr x") simp
  have ne: "sts \<noteq> []" and dn: "done (last sts)"
    using assms(2,3) by (simp_all add: g trace_def terminal_def)
  have "foldl (\<lambda>result st. if done st then payload st else result) None (butlast sts @ [last sts])
        = payload (last sts)"
    unfolding foldl_append using dn by simp
  then have "foldl (\<lambda>result st. if done st then payload st else result) None sts
        = payload (last sts)"
    using ne by simp
  then show ?thesis by (simp add: run_steps_def g terminal_def)
qed
section \<open>Presence search\<close>

lemma find_any_loop_exit:
  "d < g \<Longrightarrow> find_any_loop arr x g d =
     yield (mk_step g d (if g + d \<ge> 0 then (g + d) div 2 else 0) ''final'' NonTrouve
              True (Some (- 1))) returned"
  by (subst find_any_loop.simps) simp

lemma find_any_loop_eq:
  assumes "0 \<le> g" "d < int (length arr)" "g \<le> d" "m = (g + d) div 2" "arr ! nat m = x"
  shows "find_any_loop arr x g d =
     yield (mk_step g d m ''=='' (TrouveIndice x x m) True (Some m)) returned"
proof -
  have "0 \<le> m" "m < int (length arr)" using assms mid_bounds[of g d] by linarith+
  then have "py_index arr m = Inr x" using assms by (simp add: py_index_in_range)
  then show ?thesis using assms by (subst find_any_loop.simps) (simp add: Let_def)
qed

lemma find_any_loop_lt:
  assumes "0 \<le> g" "d < int (length arr)" "g \<le> d" "m = (g + d) div 2" "arr ! nat m < x"
  shows "find_any_loop arr x g d =
     yield (mk_step g d m ''<'' (VaDroite (arr ! nat m) x (m + 1)) False None)
       (find_any_loop arr x (m + 1) d)"
proof -
  have "0 \<le> m" "m < int (length arr)" using assms mid_bounds[of g d] by linarith+
  then have "py_index arr m = Inr (arr ! nat m)" by (simp add: py_index_in_range)
  then show ?thesis using assms by (subst find_any_loop.simps) (simp add: Let_def)
qed

lemma find_any_loop_gt:
  assumes "0 \<le> g" "d < int (length arr)" "g \<le> d" "m = (g + d) div 2" "x < arr ! nat m"
  shows "find_any_loop arr x g d =
     yield (mk_step g d m ''>'' (VaGauche (arr ! nat m) x (m - 1)) False None)
       (find_any_loop arr x g (m - 1))"
proof -
  have "0 \<le> m" "m < int (length arr)" using assms mid_bounds[of g d] by linarith+
  then have "py_index arr m = Inr (arr ! nat m)" by (simp add: py_index_in_range)
  then show ?thesis using assms by (subst find_any_loop.simps) (simp add: Let_def)
qed

lemma find_any_loop_no_raise:
  "0 \<le> g \<Longrightarrow> d < int (length arr) \<Longrightarrow> snd (find_any_loop arr x g d) = None"
proof (induction g d rule: closed_interval_induct)
  case (exit g d) then show ?case by (simp add: find_any_loop_exit)
next
  case (step g d m)
  note h = step.hyps(1-4)
  consider "arr ! nat m = x" | "arr ! nat m < x" | "x < arr ! nat m" by fastforce
  then show ?case
  proof cases
    case 1 show ?thesis by (simp add: find_any_loop_eq[OF h 1])
  next
    case 2 show ?thesis using step.IH(1) by (simp add: find_any_loop_lt[OF h 2])
  next
    case 3 show ?thesis using step.IH(2) by (simp add: find_any_loop_gt[OF h 3])
  qed
qed

lemma find_any_loop_mid:
  "0 \<le> g \<Longrightarrow> d < int (length arr) \<Longrightarrow>
   \<forall>st \<in> set (fst (find_any_loop arr x g d)).
     relation st \<noteq> ''final'' \<longrightarrow> 0 \<le> mid st \<and> mid st < int (length arr)"
proof (induction g d rule: closed_interval_induct)
  case (exit g d) then show ?case by (simp add: find_any_loop_exit)
next
  case (step g d m)
  note h = step.hyps(1-4)
  have mn: "0 \<le> m" "m < int (length arr)" using step.hyps by simp_all
  consider "arr ! nat m = x" | "arr ! nat m < x" | "x < arr ! nat m" by fastforce
  then show ?case
  proof cases
    case 1 show ?thesis using mn by (simp add: find_any_loop_eq[OF h 1])
  next
    case 2 show ?thesis using step.IH(1) mn by (simp add: find_any_loop_lt[OF h 2])
  next
    case 3 show ?thesis using step.IH(2) mn by (simp add: find_any_loop_gt[OF h 3])
  qed
qed

lemma find_any_loop_shape:
  "0 \<le> g \<Longrightarrow> d < int (length arr) \<Longrightarrow>
   fst (find_any_loop arr x g d) \<noteq> [] \<and> done (last (fst (find_any_loop arr x g d))) \<and>
   length (filter done (fst (find_any_loop arr x g d))) = 1"
proof (induction g d rule: closed_interval_induct)
  case (exit g d) then show ?case by (simp add: find_any_loop_exit)
next
  case (step g d m)
  note h = step.hyps(1-4)
  consider "arr ! nat m = x" | "arr ! nat m < x" | "x < arr ! nat m" by fastforce
  then show ?case
  proof cases
    case 1 show ?thesis by (simp add: find_any_loop_eq[OF h 1])
  next
    case 2 show ?thesis using step.IH(1) by (simp add: find_any_loop_lt[OF h 2])
  next
    case 3 show ?thesis using step.IH(2) by (simp add: find_any_loop_gt[OF h 3])
  qed
qed

lemma find_any_loop_length:
  "0 \<le> g \<Longrightarrow> d < int (length arr) \<Longrightarrow>
   length (fst (find_any_loop arr x g d)) \<le> floorlog 2 (nat (d - g + 1)) + 1"
proof (induction g d rule: closed_interval_induct)
  case (exit g d) then show ?case by (simp add: find_any_loop_exit)
next
  case (step g d m)
  note h = step.hyps(1-4)
  have pos: "0 < nat (d - g + 1)" using step.hyps by simp
  note r = floorlog_half[OF pos closed_right_half[OF step.hyps(3,4)]]
  note l = floorlog_half[OF pos closed_left_half[OF step.hyps(3,4)]]
  consider "arr ! nat m = x" | "arr ! nat m < x" | "x < arr ! nat m" by fastforce
  then show ?case
  proof cases
    case 1 show ?thesis by (simp add: find_any_loop_eq[OF h 1])
  next
    case 2 show ?thesis using step.IH(1) r by (simp add: find_any_loop_lt[OF h 2])
  next
    case 3 show ?thesis using step.IH(2) l by (simp add: find_any_loop_gt[OF h 3])
  qed
qed

lemma find_any_loop_sizes:
  "0 \<le> g \<Longrightarrow> d < int (length arr) \<Longrightarrow>
   (\<forall>st \<in> set (fst (find_any_loop arr x g d)). interval_size st \<le> max 0 (d - g + 1)) \<and>
   sorted_wrt (\<lambda>a b. interval_size b < interval_size a) (fst (find_any_loop arr x g d))"
proof (induction g d rule: closed_interval_induct)
  case (exit g d) then show ?case by (simp add: find_any_loop_exit)
next
  case (step g d m)
  note h = step.hyps(1-4)
  consider "arr ! nat m = x" | "arr ! nat m < x" | "x < arr ! nat m" by fastforce
  then show ?case
  proof cases
    case 1 show ?thesis by (simp add: find_any_loop_eq[OF h 1])
  next
    case 2
    have "\<forall>st \<in> set (fst (find_any_loop arr x (m + 1) d)). interval_size st < d - g + 1"
      using step.IH(1) step.hyps by fastforce
    then show ?thesis using step.IH(1) by (fastforce simp add: find_any_loop_lt[OF h 2])
  next
    case 3
    have "\<forall>st \<in> set (fst (find_any_loop arr x g (m - 1))). interval_size st < d - g + 1"
      using step.IH(2) step.hyps by fastforce
    then show ?thesis using step.IH(2) by (fastforce simp add: find_any_loop_gt[OF h 3])
  qed
qed

lemma find_any_loop_terminal:
  fixes arr :: "int list"
  assumes srt: "sorted arr"
  shows "0 \<le> g \<Longrightarrow> d < int (length arr) \<Longrightarrow> g \<le> d + 1 \<Longrightarrow>
    (\<forall>i. 0 \<le> i \<and> i < g \<longrightarrow> arr ! nat i < x) \<Longrightarrow>
    (\<forall>i. d < i \<and> i < int (length arr) \<longrightarrow> x < arr ! nat i) \<Longrightarrow>
    (\<exists>m. 0 \<le> m \<and> m < int (length arr) \<and> arr ! nat m = x \<and>
         relation (last (fst (find_any_loop arr x g d))) = ''=='' \<and>
         payload (last (fst (find_any_loop arr x g d))) = Some m) \<or>
    (\<exists>e. 0 \<le> e \<and> e \<le> int (length arr) \<and>
         (\<forall>i. 0 \<le> i \<and> i < e \<longrightarrow> arr ! nat i < x) \<and>
         (\<forall>i. e - 1 < i \<and> i < int (length arr) \<longrightarrow> x < arr ! nat i) \<and>
         last (fst (find_any_loop arr x g d)) =
           mk_step e (e - 1) (if e + (e - 1) \<ge> 0 then (e + (e - 1)) div 2 else 0)
             ''final'' NonTrouve True (Some (- 1)))"
proof (induction g d rule: closed_interval_induct)
  case (exit g d)
  have gd: "d = g - 1" using exit.hyps(3) exit.prems(1) by simp
  have "0 \<le> g \<and> g \<le> int (length arr) \<and>
         (\<forall>i. 0 \<le> i \<and> i < g \<longrightarrow> arr ! nat i < x) \<and>
         (\<forall>i. g - 1 < i \<and> i < int (length arr) \<longrightarrow> x < arr ! nat i) \<and>
         last (fst (find_any_loop arr x g d)) =
           mk_step g (g - 1) (if g + (g - 1) \<ge> 0 then (g + (g - 1)) div 2 else 0)
             ''final'' NonTrouve True (Some (- 1))"
    using exit.hyps(1,2) exit.prems(2,3) unfolding gd
    by (simp add: find_any_loop_exit)
  then show ?case by blast
next
  case (step g d m)
  note h = step.hyps(1-4)
  have mn: "0 \<le> m" "m < int (length arr)" using step.hyps by simp_all
  consider "arr ! nat m = x" | "arr ! nat m < x" | "x < arr ! nat m" by fastforce
  then show ?case
  proof cases
    case 1
    have "0 \<le> m \<and> m < int (length arr) \<and> arr ! nat m = x \<and>
         relation (last (fst (find_any_loop arr x g d))) = ''=='' \<and>
         payload (last (fst (find_any_loop arr x g d))) = Some m"
      using mn 1 by (simp add: find_any_loop_eq[OF h 1])
    then show ?thesis by blast
  next
    case 2
    have ne: "fst (find_any_loop arr x (m + 1) d) \<noteq> []"
      using find_any_loop_shape[of "m + 1" d arr x] mn step.hyps(2) by simp
    have unf: "last (fst (find_any_loop arr x g d)) = last (fst (find_any_loop arr x (m + 1) d))"
      using ne by (simp add: find_any_loop_lt[OF h 2])
    show ?thesis unfolding unf
    proof (rule step.IH(1))
      show "m + 1 \<le> d + 1" using step.hyps by simp
      show "\<forall>i. 0 \<le> i \<and> i < m + 1 \<longrightarrow> arr ! nat i < x" by (rule sorted_below[OF srt mn 2])
      show "\<forall>i. d < i \<and> i < int (length arr) \<longrightarrow> x < arr ! nat i" by (rule step.prems(3))
    qed
  next
    case 3
    have ne: "fst (find_any_loop arr x g (m - 1)) \<noteq> []"
      using find_any_loop_shape[of g "m - 1" arr x] mn step.hyps(1) by simp
    have unf: "last (fst (find_any_loop arr x g d)) = last (fst (find_any_loop arr x g (m - 1)))"
      using ne by (simp add: find_any_loop_gt[OF h 3])
    show ?thesis unfolding unf
    proof (rule step.IH(2))
      show "g \<le> m - 1 + 1" using step.hyps by simp
      show "\<forall>i. 0 \<le> i \<and> i < g \<longrightarrow> arr ! nat i < x" by (rule step.prems(2))
      show "\<forall>i. m - 1 < i \<and> i < int (length arr) \<longrightarrow> x < arr ! nat i"
        by (rule sorted_above[OF srt mn 3])
    qed
  qed
qed

lemma find_any_terminal:
  fixes arr :: "int list"
  assumes srt: "sorted arr"
  shows "(\<exists>m. 0 \<le> m \<and> m < int (length arr) \<and> arr ! nat m = x \<and>
         relation (terminal (steps_find_any arr x)) = ''=='' \<and>
         payload (terminal (steps_find_any arr x)) = Some m) \<or>
    (\<exists>e. 0 \<le> e \<and> e \<le> int (length arr) \<and>
         (\<forall>i. 0 \<le> i \<and> i < e \<longrightarrow> arr ! nat i < x) \<and>
         (\<forall>i. e - 1 < i \<and> i < int (length arr) \<longrightarrow> x < arr ! nat i) \<and>
         terminal (steps_find_any arr x) =
           mk_step e (e - 1) (if e + (e - 1) \<ge> 0 then (e + (e - 1)) div 2 else 0)
             ''final'' NonTrouve True (Some (- 1)))"
  unfolding terminal_def steps_find_any_def
  by (rule find_any_loop_terminal[OF srt]) simp_all

section \<open>First occurrence\<close>

lemma first_occurrence_loop_exit:
  "d < g \<Longrightarrow> first_occurrence_loop arr x g d res =
     yield (mk_step g d g ''final'' (PremiereOccurrence res) True (Some res)) returned"
  by (subst first_occurrence_loop.simps) simp

lemma first_occurrence_loop_eq:
  assumes "0 \<le> g" "d < int (length arr)" "g \<le> d" "m = (g + d) div 2" "arr ! nat m = x"
  shows "first_occurrence_loop arr x g d res =
     yield (mk_step g d m ''=='' (TrouveEncoreGauche x m) False None)
       (first_occurrence_loop arr x g (m - 1) m)"
proof -
  have "0 \<le> m" "m < int (length arr)" using assms by linarith+
  then have "py_index arr m = Inr (arr ! nat m)" by (simp add: py_index_in_range)
  then show ?thesis using assms by (subst first_occurrence_loop.simps) (simp add: Let_def)
qed

lemma first_occurrence_loop_lt:
  assumes "0 \<le> g" "d < int (length arr)" "g \<le> d" "m = (g + d) div 2" "arr ! nat m < x"
  shows "first_occurrence_loop arr x g d res =
     yield (mk_step g d m ''<'' (LtDroite (arr ! nat m) x) False None)
       (first_occurrence_loop arr x (m + 1) d res)"
proof -
  have "0 \<le> m" "m < int (length arr)" using assms by linarith+
  then have "py_index arr m = Inr (arr ! nat m)" by (simp add: py_index_in_range)
  then show ?thesis using assms by (subst first_occurrence_loop.simps) (simp add: Let_def)
qed

lemma first_occurrence_loop_gt:
  assumes "0 \<le> g" "d < int (length arr)" "g \<le> d" "m = (g + d) div 2" "x < arr ! nat m"
  shows "first_occurrence_loop arr x g d res =
     yield (mk_step g d m ''>='' (GeSansEgalite (arr ! nat m) x) False None)
       (first_occurrence_loop arr x g (m - 1) res)"
proof -
  have "0 \<le> m" "m < int (length arr)" using assms by linarith+
  then have "py_index arr m = Inr (arr ! nat m)" by (simp add: py_index_in_range)
  then show ?thesis using assms by (subst first_occurrence_loop.simps) (simp add: Let_def)
qed

lemma first_occurrence_loop_no_raise:
  "0 \<le> g \<Longrightarrow> d < int (length arr) \<Longrightarrow>
   snd (first_occurrence_loop arr x g d res) = None"
proof (induction g d arbitrary: res rule: closed_interval_induct)
  case (exit g d) then show ?case by (simp add: first_occurrence_loop_exit)
next
  case (step g d m)
  note h = step.hyps(1-4)
  consider "arr ! nat m = x" | "arr ! nat m < x" | "x < arr ! nat m" by fastforce
  then show ?case
  proof cases
    case 1 show ?thesis using step.IH(2)[of m] by (simp add: first_occurrence_loop_eq[OF h 1])
  next
    case 2 show ?thesis using step.IH(1)[of res] by (simp add: first_occurrence_loop_lt[OF h 2])
  next
    case 3 show ?thesis using step.IH(2)[of res] by (simp add: first_occurrence_loop_gt[OF h 3])
  qed
qed

lemma first_occurrence_loop_mid:
  "0 \<le> g \<Longrightarrow> d < int (length arr) \<Longrightarrow>
   \<forall>st \<in> set (fst (first_occurrence_loop arr x g d res)).
     relation st \<noteq> ''final'' \<longrightarrow> 0 \<le> mid st \<and> mid st < int (length arr)"
proof (induction g d arbitrary: res rule: closed_interval_induct)
  case (exit g d) then show ?case by (simp add: first_occurrence_loop_exit)
next
  case (step g d m)
  note h = step.hyps(1-4)
  have mn: "0 \<le> m" "m < int (length arr)" using step.hyps by simp_all
  consider "arr ! nat m = x" | "arr ! nat m < x" | "x < arr ! nat m" by fastforce
  then show ?case
  proof cases
    case 1 show ?thesis using step.IH(2)[of m] mn by (simp add: first_occurrence_loop_eq[OF h 1])
  next
    case 2 show ?thesis using step.IH(1)[of res] mn by (simp add: first_occurrence_loop_lt[OF h 2])
  next
    case 3 show ?thesis using step.IH(2)[of res] mn by (simp add: first_occurrence_loop_gt[OF h 3])
  qed
qed

lemma first_occurrence_loop_shape:
  "0 \<le> g \<Longrightarrow> d < int (length arr) \<Longrightarrow>
   fst (first_occurrence_loop arr x g d res) \<noteq> [] \<and> done (last (fst (first_occurrence_loop arr x g d res))) \<and>
   length (filter done (fst (first_occurrence_loop arr x g d res))) = 1"
proof (induction g d arbitrary: res rule: closed_interval_induct)
  case (exit g d) then show ?case by (simp add: first_occurrence_loop_exit)
next
  case (step g d m)
  note h = step.hyps(1-4)
  consider "arr ! nat m = x" | "arr ! nat m < x" | "x < arr ! nat m" by fastforce
  then show ?case
  proof cases
    case 1 show ?thesis using step.IH(2)[of m] by (simp add: first_occurrence_loop_eq[OF h 1])
  next
    case 2 show ?thesis using step.IH(1)[of res] by (simp add: first_occurrence_loop_lt[OF h 2])
  next
    case 3 show ?thesis using step.IH(2)[of res] by (simp add: first_occurrence_loop_gt[OF h 3])
  qed
qed

lemma first_occurrence_loop_length:
  "0 \<le> g \<Longrightarrow> d < int (length arr) \<Longrightarrow>
   length (fst (first_occurrence_loop arr x g d res)) \<le> floorlog 2 (nat (d - g + 1)) + 1"
proof (induction g d arbitrary: res rule: closed_interval_induct)
  case (exit g d) then show ?case by (simp add: first_occurrence_loop_exit)
next
  case (step g d m)
  note h = step.hyps(1-4)
  have pos: "0 < nat (d - g + 1)" using step.hyps by simp
  note r = floorlog_half[OF pos closed_right_half[OF step.hyps(3,4)]]
  note l = floorlog_half[OF pos closed_left_half[OF step.hyps(3,4)]]
  consider "arr ! nat m = x" | "arr ! nat m < x" | "x < arr ! nat m" by fastforce
  then show ?case
  proof cases
    case 1 show ?thesis using step.IH(2)[of m] l by (simp add: first_occurrence_loop_eq[OF h 1])
  next
    case 2 show ?thesis using step.IH(1)[of res] r by (simp add: first_occurrence_loop_lt[OF h 2])
  next
    case 3 show ?thesis using step.IH(2)[of res] l by (simp add: first_occurrence_loop_gt[OF h 3])
  qed
qed

lemma first_occurrence_loop_sizes:
  "0 \<le> g \<Longrightarrow> d < int (length arr) \<Longrightarrow>
   (\<forall>st \<in> set (fst (first_occurrence_loop arr x g d res)). interval_size st \<le> max 0 (d - g + 1)) \<and>
   sorted_wrt (\<lambda>a b. interval_size b < interval_size a) (fst (first_occurrence_loop arr x g d res))"
proof (induction g d arbitrary: res rule: closed_interval_induct)
  case (exit g d) then show ?case by (simp add: first_occurrence_loop_exit)
next
  case (step g d m)
  note h = step.hyps(1-4)
  have mb: "g \<le> m" "m \<le> d" using step.hyps by simp_all
  consider "arr ! nat m = x" | "arr ! nat m < x" | "x < arr ! nat m" by fastforce
  then show ?case
  proof cases
    case 1 show ?thesis using step.IH(2)[of m] mb by (fastforce simp add: first_occurrence_loop_eq[OF h 1])
  next
    case 2 show ?thesis using step.IH(1)[of res] mb by (fastforce simp add: first_occurrence_loop_lt[OF h 2])
  next
    case 3 show ?thesis using step.IH(2)[of res] mb by (fastforce simp add: first_occurrence_loop_gt[OF h 3])
  qed
qed


lemma first_occurrence_loop_terminal:
  fixes arr :: "int list"
  assumes srt: "sorted arr"
  shows "0 \<le> g \<Longrightarrow> d < int (length arr) \<Longrightarrow> g \<le> d + 1 \<Longrightarrow>
    (\<forall>i. 0 \<le> i \<and> i < g \<longrightarrow> arr ! nat i < x) \<Longrightarrow>
    (\<forall>i. d < i \<and> i < int (length arr) \<longrightarrow> x \<le> arr ! nat i) \<Longrightarrow>
    res = (if d + 1 < int (length arr) \<and> arr ! nat (d + 1) = x then d + 1 else - 1) \<Longrightarrow>
    \<exists>e. 0 \<le> e \<and> e \<le> int (length arr) \<and>
         (\<forall>i. 0 \<le> i \<and> i < e \<longrightarrow> arr ! nat i < x) \<and>
         (\<forall>i. e - 1 < i \<and> i < int (length arr) \<longrightarrow> \<not> arr ! nat i < x) \<and>
         last (fst (first_occurrence_loop arr x g d res)) =
           mk_step e (e - 1) e ''final''
             (PremiereOccurrence (if e < int (length arr) \<and> arr ! nat e = x then e else - 1))
             True (Some (if e < int (length arr) \<and> arr ! nat e = x then e else - 1))"
proof (induction g d arbitrary: res rule: closed_interval_induct)
  case (exit g d)
  have gd: "d = g - 1" using exit.hyps(3) exit.prems(1) by simp
  have "0 \<le> g \<and> g \<le> int (length arr) \<and>
         (\<forall>i. 0 \<le> i \<and> i < g \<longrightarrow> arr ! nat i < x) \<and>
         (\<forall>i. g - 1 < i \<and> i < int (length arr) \<longrightarrow> \<not> arr ! nat i < x) \<and>
         last (fst (first_occurrence_loop arr x g d res)) =
           mk_step g (g - 1) g ''final''
             (PremiereOccurrence (if g < int (length arr) \<and> arr ! nat g = x then g else - 1))
             True (Some (if g < int (length arr) \<and> arr ! nat g = x then g else - 1))"
    using exit.hyps(1,2) exit.prems(2,3,4) unfolding gd
    by (simp add: first_occurrence_loop_exit not_less)
  then show ?case by blast
next
  case (step g d m)
  note h = step.hyps(1-4)
  have mn: "0 \<le> m" "m < int (length arr)" using step.hyps by simp_all
  consider "arr ! nat m = x" | "arr ! nat m < x" | "x < arr ! nat m" by fastforce
  then show ?case
  proof cases
    case 1
    have ne: "fst (first_occurrence_loop arr x g (m - 1) m) \<noteq> []"
      using first_occurrence_loop_shape[of g "m - 1" arr x m] mn step.hyps(1) by simp
    have unf: "last (fst (first_occurrence_loop arr x g d res)) =
        last (fst (first_occurrence_loop arr x g (m - 1) m))"
      using ne by (simp add: first_occurrence_loop_eq[OF h 1])
    have xm: "x \<le> arr ! nat m" using 1 by simp
    show ?thesis unfolding unf
    proof (rule step.IH(2))
      show "g \<le> m - 1 + 1" using step.hyps by simp
      show "\<forall>i. 0 \<le> i \<and> i < g \<longrightarrow> arr ! nat i < x" by (rule step.prems(2))
      show "\<forall>i. m - 1 < i \<and> i < int (length arr) \<longrightarrow> x \<le> arr ! nat i"
        by (rule sorted_above_eq[OF srt mn xm])
      show "m = (if m - 1 + 1 < int (length arr) \<and> arr ! nat (m - 1 + 1) = x
                 then m - 1 + 1 else - 1)"
        using mn 1 by simp
    qed
  next
    case 2
    have ne: "fst (first_occurrence_loop arr x (m + 1) d res) \<noteq> []"
      using first_occurrence_loop_shape[of "m + 1" d arr x res] mn step.hyps(2) by simp
    have unf: "last (fst (first_occurrence_loop arr x g d res)) =
        last (fst (first_occurrence_loop arr x (m + 1) d res))"
      using ne by (simp add: first_occurrence_loop_lt[OF h 2])
    show ?thesis unfolding unf
    proof (rule step.IH(1))
      show "m + 1 \<le> d + 1" using step.hyps by simp
      show "\<forall>i. 0 \<le> i \<and> i < m + 1 \<longrightarrow> arr ! nat i < x" by (rule sorted_below[OF srt mn 2])
      show "\<forall>i. d < i \<and> i < int (length arr) \<longrightarrow> x \<le> arr ! nat i" by (rule step.prems(3))
      show "res = (if d + 1 < int (length arr) \<and> arr ! nat (d + 1) = x then d + 1 else - 1)"
        by (rule step.prems(4))
    qed
  next
    case 3
    have ne: "fst (first_occurrence_loop arr x g (m - 1) res) \<noteq> []"
      using first_occurrence_loop_shape[of g "m - 1" arr x res] mn step.hyps(1) by simp
    have unf: "last (fst (first_occurrence_loop arr x g d res)) =
        last (fst (first_occurrence_loop arr x g (m - 1) res))"
      using ne by (simp add: first_occurrence_loop_gt[OF h 3])
    have above: "\<forall>i. m - 1 < i \<and> i < int (length arr) \<longrightarrow> x < arr ! nat i"
      by (rule sorted_above[OF srt mn 3])
    have "d + 1 < int (length arr) \<longrightarrow> arr ! nat (d + 1) \<noteq> x"
      using above[rule_format, of "d + 1"] step.hyps(6) by fastforce
    then have r: "res = - 1" using step.prems(4) by auto
    have xm: "x \<le> arr ! nat m" using 3 by simp
    show ?thesis unfolding unf
    proof (rule step.IH(2))
      show "g \<le> m - 1 + 1" using step.hyps by simp
      show "\<forall>i. 0 \<le> i \<and> i < g \<longrightarrow> arr ! nat i < x" by (rule step.prems(2))
      show "\<forall>i. m - 1 < i \<and> i < int (length arr) \<longrightarrow> x \<le> arr ! nat i"
        by (rule sorted_above_eq[OF srt mn xm])
      show "res = (if m - 1 + 1 < int (length arr) \<and> arr ! nat (m - 1 + 1) = x
                   then m - 1 + 1 else - 1)"
        using r 3 by simp
    qed
  qed
qed

lemma first_occurrence_terminal:
  fixes arr :: "int list" and x :: int
  assumes srt: "sorted arr"
  defines "e \<equiv> int (length (filter (\<lambda>y. y < x) arr))"
  shows "terminal (steps_first_occurrence arr x) =
           mk_step e (e - 1) e ''final''
             (PremiereOccurrence (if e < int (length arr) \<and> arr ! nat e = x then e else - 1))
             True (Some (if e < int (length arr) \<and> arr ! nat e = x then e else - 1))"
proof -
  have "\<exists>e. 0 \<le> e \<and> e \<le> int (length arr) \<and>
         (\<forall>i. 0 \<le> i \<and> i < e \<longrightarrow> arr ! nat i < x) \<and>
         (\<forall>i. e - 1 < i \<and> i < int (length arr) \<longrightarrow> \<not> arr ! nat i < x) \<and>
         terminal (steps_first_occurrence arr x) =
           mk_step e (e - 1) e ''final''
             (PremiereOccurrence (if e < int (length arr) \<and> arr ! nat e = x then e else - 1))
             True (Some (if e < int (length arr) \<and> arr ! nat e = x then e else - 1))"
    unfolding terminal_def steps_first_occurrence_def
    by (rule first_occurrence_loop_terminal[OF srt]) simp_all
  then obtain e' where e': "0 \<le> e'" "e' \<le> int (length arr)"
      "\<forall>i. 0 \<le> i \<and> i < e' \<longrightarrow> arr ! nat i < x"
      "\<forall>i. e' - 1 < i \<and> i < int (length arr) \<longrightarrow> \<not> arr ! nat i < x"
      "terminal (steps_first_occurrence arr x) =
           mk_step e' (e' - 1) e' ''final''
             (PremiereOccurrence (if e' < int (length arr) \<and> arr ! nat e' = x then e' else - 1))
             True (Some (if e' < int (length arr) \<and> arr ! nat e' = x then e' else - 1))"
    by blast
  have "e' = e" unfolding e_def by (rule count_split[OF e'(1-4)])
  then show ?thesis using e'(5) by simp
qed
section \<open>Last occurrence\<close>

lemma last_occurrence_loop_exit:
  "d < g \<Longrightarrow> last_occurrence_loop arr x g d res =
     yield (mk_step g d d ''final'' (DerniereOccurrence res) True (Some res)) returned"
  by (subst last_occurrence_loop.simps) simp

lemma last_occurrence_loop_eq:
  assumes "0 \<le> g" "d < int (length arr)" "g \<le> d" "m = (g + d) div 2" "arr ! nat m = x"
  shows "last_occurrence_loop arr x g d res =
     yield (mk_step g d m ''=='' (TrouveEncoreDroite x m) False None)
       (last_occurrence_loop arr x (m + 1) d m)"
proof -
  have "0 \<le> m" "m < int (length arr)" using assms by linarith+
  then have "py_index arr m = Inr (arr ! nat m)" by (simp add: py_index_in_range)
  then show ?thesis using assms by (subst last_occurrence_loop.simps) (simp add: Let_def)
qed

lemma last_occurrence_loop_lt:
  assumes "0 \<le> g" "d < int (length arr)" "g \<le> d" "m = (g + d) div 2" "arr ! nat m < x"
  shows "last_occurrence_loop arr x g d res =
     yield (mk_step g d m ''<='' (LeSansEgalite (arr ! nat m) x) False None)
       (last_occurrence_loop arr x (m + 1) d res)"
proof -
  have "0 \<le> m" "m < int (length arr)" using assms by linarith+
  then have "py_index arr m = Inr (arr ! nat m)" by (simp add: py_index_in_range)
  then show ?thesis using assms by (subst last_occurrence_loop.simps) (simp add: Let_def)
qed

lemma last_occurrence_loop_gt:
  assumes "0 \<le> g" "d < int (length arr)" "g \<le> d" "m = (g + d) div 2" "x < arr ! nat m"
  shows "last_occurrence_loop arr x g d res =
     yield (mk_step g d m ''>'' (GtGauche (arr ! nat m) x) False None)
       (last_occurrence_loop arr x g (m - 1) res)"
proof -
  have "0 \<le> m" "m < int (length arr)" using assms by linarith+
  then have "py_index arr m = Inr (arr ! nat m)" by (simp add: py_index_in_range)
  then show ?thesis using assms by (subst last_occurrence_loop.simps) (simp add: Let_def)
qed

lemma last_occurrence_loop_no_raise:
  "0 \<le> g \<Longrightarrow> d < int (length arr) \<Longrightarrow>
   snd (last_occurrence_loop arr x g d res) = None"
proof (induction g d arbitrary: res rule: closed_interval_induct)
  case (exit g d) then show ?case by (simp add: last_occurrence_loop_exit)
next
  case (step g d m)
  note h = step.hyps(1-4)
  consider "arr ! nat m = x" | "arr ! nat m < x" | "x < arr ! nat m" by fastforce
  then show ?case
  proof cases
    case 1 show ?thesis using step.IH(1)[of m] by (simp add: last_occurrence_loop_eq[OF h 1])
  next
    case 2 show ?thesis using step.IH(1)[of res] by (simp add: last_occurrence_loop_lt[OF h 2])
  next
    case 3 show ?thesis using step.IH(2)[of res] by (simp add: last_occurrence_loop_gt[OF h 3])
  qed
qed

lemma last_occurrence_loop_mid:
  "0 \<le> g \<Longrightarrow> d < int (length arr) \<Longrightarrow>
   \<forall>st \<in> set (fst (last_occurrence_loop arr x g d res)).
     relation st \<noteq> ''final'' \<longrightarrow> 0 \<le> mid st \<and> mid st < int (length arr)"
proof (induction g d arbitrary: res rule: closed_interval_induct)
  case (exit g d) then show ?case by (simp add: last_occurrence_loop_exit)
next
  case (step g d m)
  note h = step.hyps(1-4)
  have mn: "0 \<le> m" "m < int (length arr)" using step.hyps by simp_all
  consider "arr ! nat m = x" | "arr ! nat m < x" | "x < arr ! nat m" by fastforce
  then show ?case
  proof cases
    case 1 show ?thesis using step.IH(1)[of m] mn by (simp add: last_occurrence_loop_eq[OF h 1])
  next
    case 2 show ?thesis using step.IH(1)[of res] mn by (simp add: last_occurrence_loop_lt[OF h 2])
  next
    case 3 show ?thesis using step.IH(2)[of res] mn by (simp add: last_occurrence_loop_gt[OF h 3])
  qed
qed

lemma last_occurrence_loop_shape:
  "0 \<le> g \<Longrightarrow> d < int (length arr) \<Longrightarrow>
   fst (last_occurrence_loop arr x g d res) \<noteq> [] \<and> done (last (fst (last_occurrence_loop arr x g d res))) \<and>
   length (filter done (fst (last_occurrence_loop arr x g d res))) = 1"
proof (induction g d arbitrary: res rule: closed_interval_induct)
  case (exit g d) then show ?case by (simp add: last_occurrence_loop_exit)
next
  case (step g d m)
  note h = step.hyps(1-4)
  consider "arr ! nat m = x" | "arr ! nat m < x" | "x < arr ! nat m" by fastforce
  then show ?case
  proof cases
    case 1 show ?thesis using step.IH(1)[of m] by (simp add: last_occurrence_loop_eq[OF h 1])
  next
    case 2 show ?thesis using step.IH(1)[of res] by (simp add: last_occurrence_loop_lt[OF h 2])
  next
    case 3 show ?thesis using step.IH(2)[of res] by (simp add: last_occurrence_loop_gt[OF h 3])
  qed
qed

lemma last_occurrence_loop_length:
  "0 \<le> g \<Longrightarrow> d < int (length arr) \<Longrightarrow>
   length (fst (last_occurrence_loop arr x g d res)) \<le> floorlog 2 (nat (d - g + 1)) + 1"
proof (induction g d arbitrary: res rule: closed_interval_induct)
  case (exit g d) then show ?case by (simp add: last_occurrence_loop_exit)
next
  case (step g d m)
  note h = step.hyps(1-4)
  have pos: "0 < nat (d - g + 1)" using step.hyps by simp
  note r = floorlog_half[OF pos closed_right_half[OF step.hyps(3,4)]]
  note l = floorlog_half[OF pos closed_left_half[OF step.hyps(3,4)]]
  consider "arr ! nat m = x" | "arr ! nat m < x" | "x < arr ! nat m" by fastforce
  then show ?case
  proof cases
    case 1 show ?thesis using step.IH(1)[of m] r by (simp add: last_occurrence_loop_eq[OF h 1])
  next
    case 2 show ?thesis using step.IH(1)[of res] r by (simp add: last_occurrence_loop_lt[OF h 2])
  next
    case 3 show ?thesis using step.IH(2)[of res] l by (simp add: last_occurrence_loop_gt[OF h 3])
  qed
qed

lemma last_occurrence_loop_sizes:
  "0 \<le> g \<Longrightarrow> d < int (length arr) \<Longrightarrow>
   (\<forall>st \<in> set (fst (last_occurrence_loop arr x g d res)). interval_size st \<le> max 0 (d - g + 1)) \<and>
   sorted_wrt (\<lambda>a b. interval_size b < interval_size a) (fst (last_occurrence_loop arr x g d res))"
proof (induction g d arbitrary: res rule: closed_interval_induct)
  case (exit g d) then show ?case by (simp add: last_occurrence_loop_exit)
next
  case (step g d m)
  note h = step.hyps(1-4)
  have mb: "g \<le> m" "m \<le> d" using step.hyps by simp_all
  consider "arr ! nat m = x" | "arr ! nat m < x" | "x < arr ! nat m" by fastforce
  then show ?case
  proof cases
    case 1 show ?thesis using step.IH(1)[of m] mb by (fastforce simp add: last_occurrence_loop_eq[OF h 1])
  next
    case 2 show ?thesis using step.IH(1)[of res] mb by (fastforce simp add: last_occurrence_loop_lt[OF h 2])
  next
    case 3 show ?thesis using step.IH(2)[of res] mb by (fastforce simp add: last_occurrence_loop_gt[OF h 3])
  qed
qed


lemma last_occurrence_loop_terminal:
  fixes arr :: "int list"
  assumes srt: "sorted arr"
  shows "0 \<le> g \<Longrightarrow> d < int (length arr) \<Longrightarrow> g \<le> d + 1 \<Longrightarrow>
    (\<forall>i. 0 \<le> i \<and> i < g \<longrightarrow> arr ! nat i \<le> x) \<Longrightarrow>
    (\<forall>i. d < i \<and> i < int (length arr) \<longrightarrow> x < arr ! nat i) \<Longrightarrow>
    res = (if 0 \<le> g - 1 \<and> arr ! nat (g - 1) = x then g - 1 else - 1) \<Longrightarrow>
    \<exists>e. 0 \<le> e \<and> e \<le> int (length arr) \<and>
         (\<forall>i. 0 \<le> i \<and> i < e \<longrightarrow> arr ! nat i \<le> x) \<and>
         (\<forall>i. e - 1 < i \<and> i < int (length arr) \<longrightarrow> \<not> arr ! nat i \<le> x) \<and>
         last (fst (last_occurrence_loop arr x g d res)) =
           mk_step e (e - 1) (e - 1) ''final''
             (DerniereOccurrence (if 0 \<le> e - 1 \<and> arr ! nat (e - 1) = x then e - 1 else - 1))
             True (Some (if 0 \<le> e - 1 \<and> arr ! nat (e - 1) = x then e - 1 else - 1))"
proof (induction g d arbitrary: res rule: closed_interval_induct)
  case (exit g d)
  have gd: "d = g - 1" using exit.hyps(3) exit.prems(1) by simp
  have "0 \<le> g \<and> g \<le> int (length arr) \<and>
         (\<forall>i. 0 \<le> i \<and> i < g \<longrightarrow> arr ! nat i \<le> x) \<and>
         (\<forall>i. g - 1 < i \<and> i < int (length arr) \<longrightarrow> \<not> arr ! nat i \<le> x) \<and>
         last (fst (last_occurrence_loop arr x g d res)) =
           mk_step g (g - 1) (g - 1) ''final''
             (DerniereOccurrence (if 0 \<le> g - 1 \<and> arr ! nat (g - 1) = x then g - 1 else - 1))
             True (Some (if 0 \<le> g - 1 \<and> arr ! nat (g - 1) = x then g - 1 else - 1))"
    using exit.hyps(1,2) exit.prems(2,3,4) unfolding gd
    by (simp add: last_occurrence_loop_exit not_le)
  then show ?case by blast
next
  case (step g d m)
  note h = step.hyps(1-4)
  have mn: "0 \<le> m" "m < int (length arr)" using step.hyps by simp_all
  consider "arr ! nat m = x" | "arr ! nat m < x" | "x < arr ! nat m" by fastforce
  then show ?case
  proof cases
    case 1
    have ne: "fst (last_occurrence_loop arr x (m + 1) d m) \<noteq> []"
      using last_occurrence_loop_shape[of "m + 1" d arr x m] mn step.hyps(2) by simp
    have unf: "last (fst (last_occurrence_loop arr x g d res)) =
        last (fst (last_occurrence_loop arr x (m + 1) d m))"
      using ne by (simp add: last_occurrence_loop_eq[OF h 1])
    have xm: "arr ! nat m \<le> x" using 1 by simp
    show ?thesis unfolding unf
    proof (rule step.IH(1))
      show "m + 1 \<le> d + 1" using step.hyps by simp
      show "\<forall>i. 0 \<le> i \<and> i < m + 1 \<longrightarrow> arr ! nat i \<le> x"
        by (rule sorted_below_eq[OF srt mn xm])
      show "\<forall>i. d < i \<and> i < int (length arr) \<longrightarrow> x < arr ! nat i" by (rule step.prems(3))
      show "m = (if 0 \<le> m + 1 - 1 \<and> arr ! nat (m + 1 - 1) = x then m + 1 - 1 else - 1)"
        using mn 1 by simp
    qed
  next
    case 2
    have ne: "fst (last_occurrence_loop arr x (m + 1) d res) \<noteq> []"
      using last_occurrence_loop_shape[of "m + 1" d arr x res] mn step.hyps(2) by simp
    have unf: "last (fst (last_occurrence_loop arr x g d res)) =
        last (fst (last_occurrence_loop arr x (m + 1) d res))"
      using ne by (simp add: last_occurrence_loop_lt[OF h 2])
    have below: "\<forall>i. 0 \<le> i \<and> i < m + 1 \<longrightarrow> arr ! nat i < x"
      by (rule sorted_below[OF srt mn 2])
    have "0 \<le> g - 1 \<longrightarrow> arr ! nat (g - 1) \<noteq> x"
      using below[rule_format, of "g - 1"] step.hyps(5) by fastforce
    then have r: "res = - 1" using step.prems(4) by auto
    have xm: "arr ! nat m \<le> x" using 2 by simp
    show ?thesis unfolding unf
    proof (rule step.IH(1))
      show "m + 1 \<le> d + 1" using step.hyps by simp
      show "\<forall>i. 0 \<le> i \<and> i < m + 1 \<longrightarrow> arr ! nat i \<le> x"
        by (rule sorted_below_eq[OF srt mn xm])
      show "\<forall>i. d < i \<and> i < int (length arr) \<longrightarrow> x < arr ! nat i" by (rule step.prems(3))
      show "res = (if 0 \<le> m + 1 - 1 \<and> arr ! nat (m + 1 - 1) = x then m + 1 - 1 else - 1)"
        using r 2 by simp
    qed
  next
    case 3
    have ne: "fst (last_occurrence_loop arr x g (m - 1) res) \<noteq> []"
      using last_occurrence_loop_shape[of g "m - 1" arr x res] mn step.hyps(1) by simp
    have unf: "last (fst (last_occurrence_loop arr x g d res)) =
        last (fst (last_occurrence_loop arr x g (m - 1) res))"
      using ne by (simp add: last_occurrence_loop_gt[OF h 3])
    show ?thesis unfolding unf
    proof (rule step.IH(2))
      show "g \<le> m - 1 + 1" using step.hyps by simp
      show "\<forall>i. 0 \<le> i \<and> i < g \<longrightarrow> arr ! nat i \<le> x" by (rule step.prems(2))
      show "\<forall>i. m - 1 < i \<and> i < int (length arr) \<longrightarrow> x < arr ! nat i"
        by (rule sorted_above[OF srt mn 3])
      show "res = (if 0 \<le> g - 1 \<and> arr ! nat (g - 1) = x then g - 1 else - 1)"
        by (rule step.prems(4))
    qed
  qed
qed

lemma last_occurrence_terminal:
  fixes arr :: "int list" and x :: int
  assumes srt: "sorted arr"
  defines "e \<equiv> int (length (filter (\<lambda>y. y \<le> x) arr))"
  shows "terminal (steps_last_occurrence arr x) =
           mk_step e (e - 1) (e - 1) ''final''
             (DerniereOccurrence (if 0 \<le> e - 1 \<and> arr ! nat (e - 1) = x then e - 1 else - 1))
             True (Some (if 0 \<le> e - 1 \<and> arr ! nat (e - 1) = x then e - 1 else - 1))"
proof -
  have "\<exists>e. 0 \<le> e \<and> e \<le> int (length arr) \<and>
         (\<forall>i. 0 \<le> i \<and> i < e \<longrightarrow> arr ! nat i \<le> x) \<and>
         (\<forall>i. e - 1 < i \<and> i < int (length arr) \<longrightarrow> \<not> arr ! nat i \<le> x) \<and>
         terminal (steps_last_occurrence arr x) =
           mk_step e (e - 1) (e - 1) ''final''
             (DerniereOccurrence (if 0 \<le> e - 1 \<and> arr ! nat (e - 1) = x then e - 1 else - 1))
             True (Some (if 0 \<le> e - 1 \<and> arr ! nat (e - 1) = x then e - 1 else - 1))"
    unfolding terminal_def steps_last_occurrence_def
    by (rule last_occurrence_loop_terminal[OF srt]) simp_all
  then obtain e' where e': "0 \<le> e'" "e' \<le> int (length arr)"
      "\<forall>i. 0 \<le> i \<and> i < e' \<longrightarrow> arr ! nat i \<le> x"
      "\<forall>i. e' - 1 < i \<and> i < int (length arr) \<longrightarrow> \<not> arr ! nat i \<le> x"
      "terminal (steps_last_occurrence arr x) =
           mk_step e' (e' - 1) (e' - 1) ''final''
             (DerniereOccurrence (if 0 \<le> e' - 1 \<and> arr ! nat (e' - 1) = x then e' - 1 else - 1))
             True (Some (if 0 \<le> e' - 1 \<and> arr ! nat (e' - 1) = x then e' - 1 else - 1))"
    by blast
  have "e' = e" unfolding e_def by (rule count_split[OF e'(1-4)])
  then show ?thesis using e'(5) by simp
qed
section \<open>Leftmost insertion point\<close>

lemma bisect_left_loop_exit:
  "d \<le> g \<Longrightarrow> bisect_left_loop arr x g d =
     yield (mk_step g (d - 1) g ''final'' (InsertionGauche g) True (Some g)) returned"
  by (subst bisect_left_loop.simps) simp

lemma bisect_left_loop_lt:
  assumes "0 \<le> g" "d \<le> int (length arr)" "g < d" "m = (g + d) div 2" "arr ! nat m < x"
  shows "bisect_left_loop arr x g d =
     yield (mk_step g (d - 1) m ''<'' (LtAffecteG (arr ! nat m) x (m + 1)) False None)
       (bisect_left_loop arr x (m + 1) d)"
proof -
  have "0 \<le> m" "m < int (length arr)" using assms by linarith+
  then have "py_index arr m = Inr (arr ! nat m)" by (simp add: py_index_in_range)
  then show ?thesis using assms by (subst bisect_left_loop.simps) (simp add: Let_def)
qed

lemma bisect_left_loop_ge:
  assumes "0 \<le> g" "d \<le> int (length arr)" "g < d" "m = (g + d) div 2" "x \<le> arr ! nat m"
  shows "bisect_left_loop arr x g d =
     yield (mk_step g (d - 1) m ''>='' (GeAffecteD (arr ! nat m) x m) False None)
       (bisect_left_loop arr x g m)"
proof -
  have "0 \<le> m" "m < int (length arr)" using assms by linarith+
  then have "py_index arr m = Inr (arr ! nat m)" by (simp add: py_index_in_range)
  then show ?thesis using assms by (subst bisect_left_loop.simps) (simp add: Let_def)
qed

lemma bisect_left_loop_no_raise:
  "0 \<le> g \<Longrightarrow> d \<le> int (length arr) \<Longrightarrow>
   snd (bisect_left_loop arr x g d) = None"
proof (induction g d rule: half_open_induct)
  case (exit g d) then show ?case by (simp add: bisect_left_loop_exit)
next
  case (step g d m)
  note h = step.hyps(1-4)
  consider "arr ! nat m < x" | "x \<le> arr ! nat m" by fastforce
  then show ?case
  proof cases
    case 1 show ?thesis using step.IH(1) by (simp add: bisect_left_loop_lt[OF h 1])
  next
    case 2 show ?thesis using step.IH(2) by (simp add: bisect_left_loop_ge[OF h 2])
  qed
qed

lemma bisect_left_loop_mid:
  "0 \<le> g \<Longrightarrow> d \<le> int (length arr) \<Longrightarrow>
   \<forall>st \<in> set (fst (bisect_left_loop arr x g d)).
     relation st \<noteq> ''final'' \<longrightarrow> 0 \<le> mid st \<and> mid st < int (length arr)"
proof (induction g d rule: half_open_induct)
  case (exit g d) then show ?case by (simp add: bisect_left_loop_exit)
next
  case (step g d m)
  note h = step.hyps(1-4)
  have mn: "0 \<le> m" "m < int (length arr)" using step.hyps by simp_all
  consider "arr ! nat m < x" | "x \<le> arr ! nat m" by fastforce
  then show ?case
  proof cases
    case 1 show ?thesis using step.IH(1) mn by (simp add: bisect_left_loop_lt[OF h 1])
  next
    case 2 show ?thesis using step.IH(2) mn by (simp add: bisect_left_loop_ge[OF h 2])
  qed
qed

lemma bisect_left_loop_shape:
  "0 \<le> g \<Longrightarrow> d \<le> int (length arr) \<Longrightarrow>
   fst (bisect_left_loop arr x g d) \<noteq> [] \<and> done (last (fst (bisect_left_loop arr x g d))) \<and>
   length (filter done (fst (bisect_left_loop arr x g d))) = 1"
proof (induction g d rule: half_open_induct)
  case (exit g d) then show ?case by (simp add: bisect_left_loop_exit)
next
  case (step g d m)
  note h = step.hyps(1-4)
  consider "arr ! nat m < x" | "x \<le> arr ! nat m" by fastforce
  then show ?case
  proof cases
    case 1 show ?thesis using step.IH(1) by (simp add: bisect_left_loop_lt[OF h 1])
  next
    case 2 show ?thesis using step.IH(2) by (simp add: bisect_left_loop_ge[OF h 2])
  qed
qed

lemma bisect_left_loop_length:
  "0 \<le> g \<Longrightarrow> d \<le> int (length arr) \<Longrightarrow>
   length (fst (bisect_left_loop arr x g d)) \<le> floorlog 2 (nat (d - g)) + 1"
proof (induction g d rule: half_open_induct)
  case (exit g d) then show ?case by (simp add: bisect_left_loop_exit)
next
  case (step g d m)
  note h = step.hyps(1-4)
  have pos: "0 < nat (d - g)" using step.hyps by simp
  note r = floorlog_half[OF pos open_right_half[OF step.hyps(3,4)]]
  note l = floorlog_half[OF pos open_left_half[OF step.hyps(3,4)]]
  consider "arr ! nat m < x" | "x \<le> arr ! nat m" by fastforce
  then show ?case
  proof cases
    case 1 show ?thesis using step.IH(1) r by (simp add: bisect_left_loop_lt[OF h 1])
  next
    case 2 show ?thesis using step.IH(2) l by (simp add: bisect_left_loop_ge[OF h 2])
  qed
qed

lemma bisect_left_loop_sizes:
  "0 \<le> g \<Longrightarrow> d \<le> int (length arr) \<Longrightarrow>
   (\<forall>st \<in> set (fst (bisect_left_loop arr x g d)). interval_size st \<le> max 0 (d - g)) \<and>
   sorted_wrt (\<lambda>a b. interval_size b < interval_size a) (fst (bisect_left_loop arr x g d))"
proof (induction g d rule: half_open_induct)
  case (exit g d) then show ?case by (simp add: bisect_left_loop_exit)
next
  case (step g d m)
  note h = step.hyps(1-4)
  have mb: "g \<le> m" "m < d" using step.hyps by simp_all
  consider "arr ! nat m < x" | "x \<le> arr ! nat m" by fastforce
  then show ?case
  proof cases
    case 1 show ?thesis using step.IH(1) mb by (fastforce simp add: bisect_left_loop_lt[OF h 1])
  next
    case 2 show ?thesis using step.IH(2) mb by (fastforce simp add: bisect_left_loop_ge[OF h 2])
  qed
qed


lemma bisect_left_loop_terminal:
  fixes arr :: "int list"
  assumes srt: "sorted arr"
  shows "0 \<le> g \<Longrightarrow> d \<le> int (length arr) \<Longrightarrow> g \<le> d \<Longrightarrow>
    (\<forall>i. 0 \<le> i \<and> i < g \<longrightarrow> arr ! nat i < x) \<Longrightarrow>
    (\<forall>i. d - 1 < i \<and> i < int (length arr) \<longrightarrow> \<not> arr ! nat i < x) \<Longrightarrow>
    \<exists>e. 0 \<le> e \<and> e \<le> int (length arr) \<and>
         (\<forall>i. 0 \<le> i \<and> i < e \<longrightarrow> arr ! nat i < x) \<and>
         (\<forall>i. e - 1 < i \<and> i < int (length arr) \<longrightarrow> \<not> arr ! nat i < x) \<and>
         last (fst (bisect_left_loop arr x g d)) =
           mk_step e (e - 1) e ''final'' (InsertionGauche e) True (Some e)"
proof (induction g d rule: half_open_induct)
  case (exit g d)
  have gd: "d = g" using exit.hyps(3) exit.prems(1) by simp
  have "0 \<le> g \<and> g \<le> int (length arr) \<and>
         (\<forall>i. 0 \<le> i \<and> i < g \<longrightarrow> arr ! nat i < x) \<and>
         (\<forall>i. g - 1 < i \<and> i < int (length arr) \<longrightarrow> \<not> arr ! nat i < x) \<and>
         last (fst (bisect_left_loop arr x g d)) =
           mk_step g (g - 1) g ''final'' (InsertionGauche g) True (Some g)"
    using exit.hyps(1,2) exit.prems(2,3) unfolding gd
    by (simp add: bisect_left_loop_exit)
  then show ?case by blast
next
  case (step g d m)
  note h = step.hyps(1-4)
  have mn: "0 \<le> m" "m < int (length arr)" using step.hyps by simp_all
  consider "arr ! nat m < x" | "x \<le> arr ! nat m" by fastforce
  then show ?case
  proof cases
    case 1
    have ne: "fst (bisect_left_loop arr x (m + 1) d) \<noteq> []"
      using bisect_left_loop_shape[of "m + 1" d arr x] mn step.hyps(2) by simp
    have unf: "last (fst (bisect_left_loop arr x g d)) = last (fst (bisect_left_loop arr x (m + 1) d))"
      using ne by (simp add: bisect_left_loop_lt[OF h 1])
    show ?thesis unfolding unf
    proof (rule step.IH(1))
      show "m + 1 \<le> d" using step.hyps by simp
      show "\<forall>i. 0 \<le> i \<and> i < m + 1 \<longrightarrow> arr ! nat i < x"
        by (rule sorted_below[OF srt mn 1])
      show "\<forall>i. d - 1 < i \<and> i < int (length arr) \<longrightarrow> \<not> arr ! nat i < x"
        by (rule step.prems(3))
    qed
  next
    case 2
    have ne: "fst (bisect_left_loop arr x g m) \<noteq> []"
      using bisect_left_loop_shape[of g m arr x] mn step.hyps(1) by simp
    have unf: "last (fst (bisect_left_loop arr x g d)) = last (fst (bisect_left_loop arr x g m))"
      using ne by (simp add: bisect_left_loop_ge[OF h 2])
    show ?thesis unfolding unf
    proof (rule step.IH(2))
      show "g \<le> m" using step.hyps by simp
      show "\<forall>i. 0 \<le> i \<and> i < g \<longrightarrow> arr ! nat i < x" by (rule step.prems(2))
      show "\<forall>i. m - 1 < i \<and> i < int (length arr) \<longrightarrow> \<not> arr ! nat i < x"
        using sorted_above_eq[OF srt mn 2] by (simp add: not_less)
    qed
  qed
qed

lemma bisect_left_terminal:
  fixes arr :: "int list" and x :: int
  assumes srt: "sorted arr"
  defines "e \<equiv> int (length (filter (\<lambda>y. y < x) arr))"
  shows "terminal (steps_bisect_left arr x) =
           mk_step e (e - 1) e ''final'' (InsertionGauche e) True (Some e)"
proof -
  have "\<exists>e. 0 \<le> e \<and> e \<le> int (length arr) \<and>
         (\<forall>i. 0 \<le> i \<and> i < e \<longrightarrow> arr ! nat i < x) \<and>
         (\<forall>i. e - 1 < i \<and> i < int (length arr) \<longrightarrow> \<not> arr ! nat i < x) \<and>
         terminal (steps_bisect_left arr x) =
           mk_step e (e - 1) e ''final'' (InsertionGauche e) True (Some e)"
    unfolding terminal_def steps_bisect_left_def
    by (rule bisect_left_loop_terminal[OF srt]) simp_all
  then obtain e' where e': "0 \<le> e'" "e' \<le> int (length arr)"
      "\<forall>i. 0 \<le> i \<and> i < e' \<longrightarrow> arr ! nat i < x"
      "\<forall>i. e' - 1 < i \<and> i < int (length arr) \<longrightarrow> \<not> arr ! nat i < x"
      "terminal (steps_bisect_left arr x) =
           mk_step e' (e' - 1) e' ''final'' (InsertionGauche e') True (Some e')"
    by blast
  have "e' = e" unfolding e_def by (rule count_split[OF e'(1-4)])
  then show ?thesis using e'(5) by simp
qed
section \<open>Rightmost insertion point\<close>

lemma bisect_right_loop_exit:
  "d \<le> g \<Longrightarrow> bisect_right_loop arr x g d =
     yield (mk_step g (d - 1) g ''final'' (InsertionDroite g) True (Some g)) returned"
  by (subst bisect_right_loop.simps) simp

lemma bisect_right_loop_le:
  assumes "0 \<le> g" "d \<le> int (length arr)" "g < d" "m = (g + d) div 2" "arr ! nat m \<le> x"
  shows "bisect_right_loop arr x g d =
     yield (mk_step g (d - 1) m ''<='' (LeAffecteG (arr ! nat m) x (m + 1)) False None)
       (bisect_right_loop arr x (m + 1) d)"
proof -
  have "0 \<le> m" "m < int (length arr)" using assms by linarith+
  then have "py_index arr m = Inr (arr ! nat m)" by (simp add: py_index_in_range)
  then show ?thesis using assms by (subst bisect_right_loop.simps) (simp add: Let_def)
qed

lemma bisect_right_loop_gt:
  assumes "0 \<le> g" "d \<le> int (length arr)" "g < d" "m = (g + d) div 2" "x < arr ! nat m"
  shows "bisect_right_loop arr x g d =
     yield (mk_step g (d - 1) m ''>'' (GtAffecteD (arr ! nat m) x m) False None)
       (bisect_right_loop arr x g m)"
proof -
  have "0 \<le> m" "m < int (length arr)" using assms by linarith+
  then have "py_index arr m = Inr (arr ! nat m)" by (simp add: py_index_in_range)
  then show ?thesis using assms by (subst bisect_right_loop.simps) (simp add: Let_def)
qed

lemma bisect_right_loop_no_raise:
  "0 \<le> g \<Longrightarrow> d \<le> int (length arr) \<Longrightarrow>
   snd (bisect_right_loop arr x g d) = None"
proof (induction g d rule: half_open_induct)
  case (exit g d) then show ?case by (simp add: bisect_right_loop_exit)
next
  case (step g d m)
  note h = step.hyps(1-4)
  consider "arr ! nat m \<le> x" | "x < arr ! nat m" by fastforce
  then show ?case
  proof cases
    case 1 show ?thesis using step.IH(1) by (simp add: bisect_right_loop_le[OF h 1])
  next
    case 2 show ?thesis using step.IH(2) by (simp add: bisect_right_loop_gt[OF h 2])
  qed
qed

lemma bisect_right_loop_mid:
  "0 \<le> g \<Longrightarrow> d \<le> int (length arr) \<Longrightarrow>
   \<forall>st \<in> set (fst (bisect_right_loop arr x g d)).
     relation st \<noteq> ''final'' \<longrightarrow> 0 \<le> mid st \<and> mid st < int (length arr)"
proof (induction g d rule: half_open_induct)
  case (exit g d) then show ?case by (simp add: bisect_right_loop_exit)
next
  case (step g d m)
  note h = step.hyps(1-4)
  have mn: "0 \<le> m" "m < int (length arr)" using step.hyps by simp_all
  consider "arr ! nat m \<le> x" | "x < arr ! nat m" by fastforce
  then show ?case
  proof cases
    case 1 show ?thesis using step.IH(1) mn by (simp add: bisect_right_loop_le[OF h 1])
  next
    case 2 show ?thesis using step.IH(2) mn by (simp add: bisect_right_loop_gt[OF h 2])
  qed
qed

lemma bisect_right_loop_shape:
  "0 \<le> g \<Longrightarrow> d \<le> int (length arr) \<Longrightarrow>
   fst (bisect_right_loop arr x g d) \<noteq> [] \<and> done (last (fst (bisect_right_loop arr x g d))) \<and>
   length (filter done (fst (bisect_right_loop arr x g d))) = 1"
proof (induction g d rule: half_open_induct)
  case (exit g d) then show ?case by (simp add: bisect_right_loop_exit)
next
  case (step g d m)
  note h = step.hyps(1-4)
  consider "arr ! nat m \<le> x" | "x < arr ! nat m" by fastforce
  then show ?case
  proof cases
    case 1 show ?thesis using step.IH(1) by (simp add: bisect_right_loop_le[OF h 1])
  next
    case 2 show ?thesis using step.IH(2) by (simp add: bisect_right_loop_gt[OF h 2])
  qed
qed

lemma bisect_right_loop_length:
  "0 \<le> g \<Longrightarrow> d \<le> int (length arr) \<Longrightarrow>
   length (fst (bisect_right_loop arr x g d)) \<le> floorlog 2 (nat (d - g)) + 1"
proof (induction g d rule: half_open_induct)
  case (exit g d) then show ?case by (simp add: bisect_right_loop_exit)
next
  case (step g d m)
  note h = step.hyps(1-4)
  have pos: "0 < nat (d - g)" using step.hyps by simp
  note r = floorlog_half[OF pos open_right_half[OF step.hyps(3,4)]]
  note l = floorlog_half[OF pos open_left_half[OF step.hyps(3,4)]]
  consider "arr ! nat m \<le> x" | "x < arr ! nat m" by fastforce
  then show ?case
  proof cases
    case 1 show ?thesis using step.IH(1) r by (simp add: bisect_right_loop_le[OF h 1])
  next
    case 2 show ?thesis using step.IH(2) l by (simp add: bisect_right_loop_gt[OF h 2])
  qed
qed

lemma bisect_right_loop_sizes:
  "0 \<le> g \<Longrightarrow> d \<le> int (length arr) \<Longrightarrow>
   (\<forall>st \<in> set (fst (bisect_right_loop arr x g d)). interval_size st \<le> max 0 (d - g)) \<and>
   sorted_wrt (\<lambda>a b. interval_size b < interval_size a) (fst (bisect_right_loop arr x g d))"
proof (induction g d rule: half_open_induct)
  case (exit g d) then show ?case by (simp add: bisect_right_loop_exit)
next
  case (step g d m)
  note h = step.hyps(1-4)
  have mb: "g \<le> m" "m < d" using step.hyps by simp_all
  consider "arr ! nat m \<le> x" | "x < arr ! nat m" by fastforce
  then show ?case
  proof cases
    case 1 show ?thesis using step.IH(1) mb by (fastforce simp add: bisect_right_loop_le[OF h 1])
  next
    case 2 show ?thesis using step.IH(2) mb by (fastforce simp add: bisect_right_loop_gt[OF h 2])
  qed
qed


lemma bisect_right_loop_terminal:
  fixes arr :: "int list"
  assumes srt: "sorted arr"
  shows "0 \<le> g \<Longrightarrow> d \<le> int (length arr) \<Longrightarrow> g \<le> d \<Longrightarrow>
    (\<forall>i. 0 \<le> i \<and> i < g \<longrightarrow> arr ! nat i \<le> x) \<Longrightarrow>
    (\<forall>i. d - 1 < i \<and> i < int (length arr) \<longrightarrow> \<not> arr ! nat i \<le> x) \<Longrightarrow>
    \<exists>e. 0 \<le> e \<and> e \<le> int (length arr) \<and>
         (\<forall>i. 0 \<le> i \<and> i < e \<longrightarrow> arr ! nat i \<le> x) \<and>
         (\<forall>i. e - 1 < i \<and> i < int (length arr) \<longrightarrow> \<not> arr ! nat i \<le> x) \<and>
         last (fst (bisect_right_loop arr x g d)) =
           mk_step e (e - 1) e ''final'' (InsertionDroite e) True (Some e)"
proof (induction g d rule: half_open_induct)
  case (exit g d)
  have gd: "d = g" using exit.hyps(3) exit.prems(1) by simp
  have "0 \<le> g \<and> g \<le> int (length arr) \<and>
         (\<forall>i. 0 \<le> i \<and> i < g \<longrightarrow> arr ! nat i \<le> x) \<and>
         (\<forall>i. g - 1 < i \<and> i < int (length arr) \<longrightarrow> \<not> arr ! nat i \<le> x) \<and>
         last (fst (bisect_right_loop arr x g d)) =
           mk_step g (g - 1) g ''final'' (InsertionDroite g) True (Some g)"
    using exit.hyps(1,2) exit.prems(2,3) unfolding gd
    by (simp add: bisect_right_loop_exit)
  then show ?case by blast
next
  case (step g d m)
  note h = step.hyps(1-4)
  have mn: "0 \<le> m" "m < int (length arr)" using step.hyps by simp_all
  consider "arr ! nat m \<le> x" | "x < arr ! nat m" by fastforce
  then show ?case
  proof cases
    case 1
    have ne: "fst (bisect_right_loop arr x (m + 1) d) \<noteq> []"
      using bisect_right_loop_shape[of "m + 1" d arr x] mn step.hyps(2) by simp
    have unf: "last (fst (bisect_right_loop arr x g d)) = last (fst (bisect_right_loop arr x (m + 1) d))"
      using ne by (simp add: bisect_right_loop_le[OF h 1])
    show ?thesis unfolding unf
    proof (rule step.IH(1))
      show "m + 1 \<le> d" using step.hyps by simp
      show "\<forall>i. 0 \<le> i \<and> i < m + 1 \<longrightarrow> arr ! nat i \<le> x"
        by (rule sorted_below_eq[OF srt mn 1])
      show "\<forall>i. d - 1 < i \<and> i < int (length arr) \<longrightarrow> \<not> arr ! nat i \<le> x"
        by (rule step.prems(3))
    qed
  next
    case 2
    have ne: "fst (bisect_right_loop arr x g m) \<noteq> []"
      using bisect_right_loop_shape[of g m arr x] mn step.hyps(1) by simp
    have unf: "last (fst (bisect_right_loop arr x g d)) = last (fst (bisect_right_loop arr x g m))"
      using ne by (simp add: bisect_right_loop_gt[OF h 2])
    show ?thesis unfolding unf
    proof (rule step.IH(2))
      show "g \<le> m" using step.hyps by simp
      show "\<forall>i. 0 \<le> i \<and> i < g \<longrightarrow> arr ! nat i \<le> x" by (rule step.prems(2))
      show "\<forall>i. m - 1 < i \<and> i < int (length arr) \<longrightarrow> \<not> arr ! nat i \<le> x"
        using sorted_above[OF srt mn 2] by (simp add: not_le)
    qed
  qed
qed

lemma bisect_right_terminal:
  fixes arr :: "int list" and x :: int
  assumes srt: "sorted arr"
  defines "e \<equiv> int (length (filter (\<lambda>y. y \<le> x) arr))"
  shows "terminal (steps_bisect_right arr x) =
           mk_step e (e - 1) e ''final'' (InsertionDroite e) True (Some e)"
proof -
  have "\<exists>e. 0 \<le> e \<and> e \<le> int (length arr) \<and>
         (\<forall>i. 0 \<le> i \<and> i < e \<longrightarrow> arr ! nat i \<le> x) \<and>
         (\<forall>i. e - 1 < i \<and> i < int (length arr) \<longrightarrow> \<not> arr ! nat i \<le> x) \<and>
         terminal (steps_bisect_right arr x) =
           mk_step e (e - 1) e ''final'' (InsertionDroite e) True (Some e)"
    unfolding terminal_def steps_bisect_right_def
    by (rule bisect_right_loop_terminal[OF srt]) simp_all
  then obtain e' where e': "0 \<le> e'" "e' \<le> int (length arr)"
      "\<forall>i. 0 \<le> i \<and> i < e' \<longrightarrow> arr ! nat i \<le> x"
      "\<forall>i. e' - 1 < i \<and> i < int (length arr) \<longrightarrow> \<not> arr ! nat i \<le> x"
      "terminal (steps_bisect_right arr x) =
           mk_step e' (e' - 1) e' ''final'' (InsertionDroite e') True (Some e')"
    by blast
  have "e' = e" unfolding e_def by (rule count_split[OF e'(1-4)])
  then show ?thesis using e'(5) by simp
qed
section \<open>The five generators as a whole\<close>

lemma steps_find_any_single_terminal_step: "single_terminal_step (steps_find_any arr x)"
  unfolding single_terminal_step_def trace_def terminal_def steps_find_any_def
  using find_any_loop_shape[of 0 "int (length arr) - 1" arr x] by simp

lemma steps_find_any_logarithmic_run: "logarithmic_run arr (steps_find_any arr x)"
  unfolding logarithmic_run_def trace_def steps_find_any_def
  using find_any_loop_no_raise[of 0 "int (length arr) - 1" arr x] find_any_loop_length[of 0 "int (length arr) - 1" arr x]
    find_any_loop_sizes[of 0 "int (length arr) - 1" arr x]
  by simp

lemma steps_find_any_reads_in_range: "reads_in_range arr (steps_find_any arr x)"
  unfolding reads_in_range_def trace_def steps_find_any_def
  using find_any_loop_no_raise[of 0 "int (length arr) - 1" arr x] find_any_loop_mid[of 0 "int (length arr) - 1" arr x]
  by (auto simp: list_all_iff)

lemma run_steps_find_any:
  "run_steps arr x steps_find_any = Inr (payload (terminal (steps_find_any arr x)))"
  using steps_find_any_single_terminal_step[of arr x] steps_find_any_logarithmic_run[of arr x]
  by (intro run_steps_terminal) (simp_all add: single_terminal_step_def logarithmic_run_def)

lemma steps_first_occurrence_single_terminal_step: "single_terminal_step (steps_first_occurrence arr x)"
  unfolding single_terminal_step_def trace_def terminal_def steps_first_occurrence_def
  using first_occurrence_loop_shape[of 0 "int (length arr) - 1" arr x "- 1"] by simp

lemma steps_first_occurrence_logarithmic_run: "logarithmic_run arr (steps_first_occurrence arr x)"
  unfolding logarithmic_run_def trace_def steps_first_occurrence_def
  using first_occurrence_loop_no_raise[of 0 "int (length arr) - 1" arr x "- 1"] first_occurrence_loop_length[of 0 "int (length arr) - 1" arr x "- 1"]
    first_occurrence_loop_sizes[of 0 "int (length arr) - 1" arr x "- 1"]
  by simp

lemma steps_first_occurrence_reads_in_range: "reads_in_range arr (steps_first_occurrence arr x)"
  unfolding reads_in_range_def trace_def steps_first_occurrence_def
  using first_occurrence_loop_no_raise[of 0 "int (length arr) - 1" arr x "- 1"] first_occurrence_loop_mid[of 0 "int (length arr) - 1" arr x "- 1"]
  by (auto simp: list_all_iff)

lemma run_steps_first_occurrence:
  "run_steps arr x steps_first_occurrence = Inr (payload (terminal (steps_first_occurrence arr x)))"
  using steps_first_occurrence_single_terminal_step[of arr x] steps_first_occurrence_logarithmic_run[of arr x]
  by (intro run_steps_terminal) (simp_all add: single_terminal_step_def logarithmic_run_def)

lemma steps_last_occurrence_single_terminal_step: "single_terminal_step (steps_last_occurrence arr x)"
  unfolding single_terminal_step_def trace_def terminal_def steps_last_occurrence_def
  using last_occurrence_loop_shape[of 0 "int (length arr) - 1" arr x "- 1"] by simp

lemma steps_last_occurrence_logarithmic_run: "logarithmic_run arr (steps_last_occurrence arr x)"
  unfolding logarithmic_run_def trace_def steps_last_occurrence_def
  using last_occurrence_loop_no_raise[of 0 "int (length arr) - 1" arr x "- 1"] last_occurrence_loop_length[of 0 "int (length arr) - 1" arr x "- 1"]
    last_occurrence_loop_sizes[of 0 "int (length arr) - 1" arr x "- 1"]
  by simp

lemma steps_last_occurrence_reads_in_range: "reads_in_range arr (steps_last_occurrence arr x)"
  unfolding reads_in_range_def trace_def steps_last_occurrence_def
  using last_occurrence_loop_no_raise[of 0 "int (length arr) - 1" arr x "- 1"] last_occurrence_loop_mid[of 0 "int (length arr) - 1" arr x "- 1"]
  by (auto simp: list_all_iff)

lemma run_steps_last_occurrence:
  "run_steps arr x steps_last_occurrence = Inr (payload (terminal (steps_last_occurrence arr x)))"
  using steps_last_occurrence_single_terminal_step[of arr x] steps_last_occurrence_logarithmic_run[of arr x]
  by (intro run_steps_terminal) (simp_all add: single_terminal_step_def logarithmic_run_def)

lemma steps_bisect_left_single_terminal_step: "single_terminal_step (steps_bisect_left arr x)"
  unfolding single_terminal_step_def trace_def terminal_def steps_bisect_left_def
  using bisect_left_loop_shape[of 0 "int (length arr)" arr x] by simp

lemma steps_bisect_left_logarithmic_run: "logarithmic_run arr (steps_bisect_left arr x)"
  unfolding logarithmic_run_def trace_def steps_bisect_left_def
  using bisect_left_loop_no_raise[of 0 "int (length arr)" arr x] bisect_left_loop_length[of 0 "int (length arr)" arr x]
    bisect_left_loop_sizes[of 0 "int (length arr)" arr x]
  by simp

lemma steps_bisect_left_reads_in_range: "reads_in_range arr (steps_bisect_left arr x)"
  unfolding reads_in_range_def trace_def steps_bisect_left_def
  using bisect_left_loop_no_raise[of 0 "int (length arr)" arr x] bisect_left_loop_mid[of 0 "int (length arr)" arr x]
  by (auto simp: list_all_iff)

lemma run_steps_bisect_left:
  "run_steps arr x steps_bisect_left = Inr (payload (terminal (steps_bisect_left arr x)))"
  using steps_bisect_left_single_terminal_step[of arr x] steps_bisect_left_logarithmic_run[of arr x]
  by (intro run_steps_terminal) (simp_all add: single_terminal_step_def logarithmic_run_def)

lemma steps_bisect_right_single_terminal_step: "single_terminal_step (steps_bisect_right arr x)"
  unfolding single_terminal_step_def trace_def terminal_def steps_bisect_right_def
  using bisect_right_loop_shape[of 0 "int (length arr)" arr x] by simp

lemma steps_bisect_right_logarithmic_run: "logarithmic_run arr (steps_bisect_right arr x)"
  unfolding logarithmic_run_def trace_def steps_bisect_right_def
  using bisect_right_loop_no_raise[of 0 "int (length arr)" arr x] bisect_right_loop_length[of 0 "int (length arr)" arr x]
    bisect_right_loop_sizes[of 0 "int (length arr)" arr x]
  by simp

lemma steps_bisect_right_reads_in_range: "reads_in_range arr (steps_bisect_right arr x)"
  unfolding reads_in_range_def trace_def steps_bisect_right_def
  using bisect_right_loop_no_raise[of 0 "int (length arr)" arr x] bisect_right_loop_mid[of 0 "int (length arr)" arr x]
  by (auto simp: list_all_iff)

lemma run_steps_bisect_right:
  "run_steps arr x steps_bisect_right = Inr (payload (terminal (steps_bisect_right arr x)))"
  using steps_bisect_right_single_terminal_step[of arr x] steps_bisect_right_logarithmic_run[of arr x]
  by (intro run_steps_terminal) (simp_all add: single_terminal_step_def logarithmic_run_def)
section \<open>Counting elements of a sorted list\<close>

text \<open>
  In a sorted list the elements below a key form a prefix, and so do the elements not
  above it. Both facts are read off the runs of the two insertion-point searches.
\<close>

lemma sorted_count_lt:
  fixes arr :: "int list" and x :: int
  assumes srt: "sorted arr"
  defines "e \<equiv> int (length (filter (\<lambda>y. y < x) arr))"
  shows "\<forall>i. 0 \<le> i \<and> i < e \<longrightarrow> arr ! nat i < x"
    and "\<forall>i. e - 1 < i \<and> i < int (length arr) \<longrightarrow> \<not> arr ! nat i < x"
proof -
  have "\<exists>e. 0 \<le> e \<and> e \<le> int (length arr) \<and>
         (\<forall>i. 0 \<le> i \<and> i < e \<longrightarrow> arr ! nat i < x) \<and>
         (\<forall>i. e - 1 < i \<and> i < int (length arr) \<longrightarrow> \<not> arr ! nat i < x) \<and>
         last (fst (bisect_left_loop arr x 0 (int (length arr)))) =
           mk_step e (e - 1) e ''final'' (InsertionGauche e) True (Some e)"
    by (rule bisect_left_loop_terminal[OF srt]) simp_all
  then obtain e' where e': "0 \<le> e'" "e' \<le> int (length arr)"
      "\<forall>i. 0 \<le> i \<and> i < e' \<longrightarrow> arr ! nat i < x"
      "\<forall>i. e' - 1 < i \<and> i < int (length arr) \<longrightarrow> \<not> arr ! nat i < x"
    by blast
  have eq: "e' = e" unfolding e_def by (rule count_split[OF e'(1-4)])
  show "\<forall>i. 0 \<le> i \<and> i < e \<longrightarrow> arr ! nat i < x" using e'(3) unfolding eq .
  show "\<forall>i. e - 1 < i \<and> i < int (length arr) \<longrightarrow> \<not> arr ! nat i < x"
    using e'(4) unfolding eq .
qed

lemma sorted_count_le:
  fixes arr :: "int list" and x :: int
  assumes srt: "sorted arr"
  defines "e \<equiv> int (length (filter (\<lambda>y. y \<le> x) arr))"
  shows "\<forall>i. 0 \<le> i \<and> i < e \<longrightarrow> arr ! nat i \<le> x"
    and "\<forall>i. e - 1 < i \<and> i < int (length arr) \<longrightarrow> \<not> arr ! nat i \<le> x"
proof -
  have "\<exists>e. 0 \<le> e \<and> e \<le> int (length arr) \<and>
         (\<forall>i. 0 \<le> i \<and> i < e \<longrightarrow> arr ! nat i \<le> x) \<and>
         (\<forall>i. e - 1 < i \<and> i < int (length arr) \<longrightarrow> \<not> arr ! nat i \<le> x) \<and>
         last (fst (bisect_right_loop arr x 0 (int (length arr)))) =
           mk_step e (e - 1) e ''final'' (InsertionDroite e) True (Some e)"
    by (rule bisect_right_loop_terminal[OF srt]) simp_all
  then obtain e' where e': "0 \<le> e'" "e' \<le> int (length arr)"
      "\<forall>i. 0 \<le> i \<and> i < e' \<longrightarrow> arr ! nat i \<le> x"
      "\<forall>i. e' - 1 < i \<and> i < int (length arr) \<longrightarrow> \<not> arr ! nat i \<le> x"
    by blast
  have eq: "e' = e" unfolding e_def by (rule count_split[OF e'(1-4)])
  show "\<forall>i. 0 \<le> i \<and> i < e \<longrightarrow> arr ! nat i \<le> x" using e'(3) unfolding eq .
  show "\<forall>i. e - 1 < i \<and> i < int (length arr) \<longrightarrow> \<not> arr ! nat i \<le> x"
    using e'(4) unfolding eq .
qed

lemma count_le_split:
  fixes arr :: "int list"
  shows "length (filter (\<lambda>y. y \<le> x) arr) =
         length (filter (\<lambda>y. y < x) arr) + length (filter (\<lambda>y. y = x) arr)"
  by (induction arr) auto

lemma count_eq_zero_iff:
  fixes arr :: "int list"
  shows "length (filter (\<lambda>y. y = x) arr) = 0 \<longleftrightarrow> x \<notin> set arr"
  by (auto simp: filter_empty_conv)

text \<open>
  When the key occurs in a sorted list, its first occurrence is at the number of
  elements below the key and its last occurrence just before the number of elements not
  above the key.
\<close>

lemma first_index_of:
  fixes arr :: "int list" and x :: int
  assumes srt: "sorted arr" and mem: "x \<in> set arr"
  defines "c \<equiv> length (filter (\<lambda>y. y < x) arr)"
  shows "c < length arr" and "arr ! c = x" and "\<forall>j. j < c \<longrightarrow> arr ! j \<noteq> x"
proof -
  note pre = sorted_count_lt(1)[OF srt, of x, folded c_def]
  note suf = sorted_count_lt(2)[OF srt, of x, folded c_def]
  obtain j where j: "j < length arr" "arr ! j = x" using mem by (auto simp: in_set_conv_nth)
  have "\<not> int j < int c"
  proof
    assume "int j < int c"
    then have "arr ! nat (int j) < x" using pre[rule_format, of "int j"] by simp
    then show False using j(2) by simp
  qed
  then have cj: "c \<le> j" by simp
  then show c: "c < length arr" using j(1) by simp
  have "\<not> arr ! nat (int c) < x" using suf[rule_format, of "int c"] c by simp
  then have "x \<le> arr ! c" by simp
  moreover have "arr ! c \<le> arr ! j" using sorted_nth_mono[OF srt cj j(1)] .
  ultimately show "arr ! c = x" using j(2) by simp
  show "\<forall>j. j < c \<longrightarrow> arr ! j \<noteq> x"
  proof (intro allI impI)
    fix i assume "i < c"
    then have "arr ! nat (int i) < x" using pre[rule_format, of "int i"] by simp
    then show "arr ! i \<noteq> x" by simp
  qed
qed

lemma last_index_of:
  fixes arr :: "int list" and x :: int
  assumes srt: "sorted arr" and mem: "x \<in> set arr"
  defines "c \<equiv> length (filter (\<lambda>y. y \<le> x) arr)"
  shows "0 < c" and "c \<le> length arr" and "arr ! (c - 1) = x"
    and "\<forall>j. c - 1 < j \<and> j < length arr \<longrightarrow> arr ! j \<noteq> x"
proof -
  note pre = sorted_count_le(1)[OF srt, of x, folded c_def]
  note suf = sorted_count_le(2)[OF srt, of x, folded c_def]
  obtain j where j: "j < length arr" "arr ! j = x" using mem by (auto simp: in_set_conv_nth)
  have "\<not> int c - 1 < int j"
  proof
    assume "int c - 1 < int j"
    then have "\<not> arr ! nat (int j) \<le> x" using suf[rule_format, of "int j"] j(1) by simp
    then show False using j(2) by simp
  qed
  then have jc: "j < c" by simp
  then show c0: "0 < c" by simp
  show cn: "c \<le> length arr" unfolding c_def by (rule length_filter_le)
  have "arr ! nat (int (c - 1)) \<le> x" using pre[rule_format, of "int (c - 1)"] c0 by simp
  then have "arr ! (c - 1) \<le> x" by simp
  moreover have "arr ! j \<le> arr ! (c - 1)"
    using sorted_nth_mono[OF srt, of j "c - 1"] jc cn c0 by simp
  ultimately show "arr ! (c - 1) = x" using j(2) by simp
  show "\<forall>j. c - 1 < j \<and> j < length arr \<longrightarrow> arr ! j \<noteq> x"
  proof (intro allI impI)
    fix i assume i: "c - 1 < i \<and> i < length arr"
    then have "int c - 1 < int i \<and> int i < int (length arr)" using c0 by linarith
    then have "\<not> arr ! nat (int i) \<le> x" using suf[rule_format, of "int i"] by blast
    then show "arr ! i \<noteq> x" by simp
  qed
qed

lemma first_occurrence_payload:
  fixes arr :: "int list" and x :: int
  assumes srt: "sorted arr"
  shows "payload (terminal (steps_first_occurrence arr x)) =
     Some (if x \<in> set arr then int (length (filter (\<lambda>y. y < x) arr)) else - 1)"
proof -
  define c where "c = length (filter (\<lambda>y. y < x) arr)"
  have p: "payload (terminal (steps_first_occurrence arr x)) =
      Some (if int c < int (length arr) \<and> arr ! nat (int c) = x then int c else - 1)"
    unfolding first_occurrence_terminal[OF srt] c_def by (simp only: mk_step_sel)
  show ?thesis
  proof (cases "x \<in> set arr")
    case True
    have "int c < int (length arr) \<and> arr ! nat (int c) = x"
      using first_index_of(1,2)[OF srt True] unfolding c_def by simp
    then show ?thesis unfolding p using True by (simp only: c_def if_True simp_thms)
  next
    case False
    have "\<not> (int c < int (length arr) \<and> arr ! nat (int c) = x)"
      using False nth_mem[of c arr] by auto
    then show ?thesis unfolding p using False by (simp only: if_False)
  qed
qed

lemma last_occurrence_payload:
  fixes arr :: "int list" and x :: int
  assumes srt: "sorted arr"
  shows "payload (terminal (steps_last_occurrence arr x)) =
     Some (if x \<in> set arr then int (length (filter (\<lambda>y. y \<le> x) arr)) - 1 else - 1)"
proof -
  define c where "c = length (filter (\<lambda>y. y \<le> x) arr)"
  have cn: "c \<le> length arr" unfolding c_def by (rule length_filter_le)
  have p: "payload (terminal (steps_last_occurrence arr x)) =
      Some (if 0 \<le> int c - 1 \<and> arr ! nat (int c - 1) = x then int c - 1 else - 1)"
    unfolding last_occurrence_terminal[OF srt] c_def by (simp only: mk_step_sel)
  have n: "nat (int c - 1) = c - 1" by simp
  show ?thesis
  proof (cases "x \<in> set arr")
    case True
    have "0 < c" "arr ! (c - 1) = x"
      using last_index_of(1,3)[OF srt True] unfolding c_def by simp_all
    then have "0 \<le> int c - 1 \<and> arr ! nat (int c - 1) = x" unfolding n by simp
    then show ?thesis unfolding p using True by (simp only: c_def if_True simp_thms)
  next
    case False
    have "\<not> (0 \<le> int c - 1 \<and> arr ! nat (int c - 1) = x)"
    proof
      assume a: "0 \<le> int c - 1 \<and> arr ! nat (int c - 1) = x"
      then have "c - 1 < length arr" using cn by linarith
      then have "arr ! (c - 1) \<in> set arr" by (rule nth_mem)
      then show False using a False unfolding n by simp
    qed
    then show ?thesis unfolding p using False by (simp only: if_False)
  qed
qed

section \<open>Properties of the specification\<close>

text \<open>
  C1. On a sorted list the run of the presence search raises nothing, its terminal step has
  the \<open>done\<close> flag, and the payload of that step is an index at which the list holds the
  key when the key occurs in the list, and \<open>-1\<close> when it does not.
\<close>

theorem presence_correct:
  assumes "sorted arr"
  shows "snd (steps_find_any arr k) = None \<and> done (terminal (steps_find_any arr k)) \<and>
    (if k \<in> set arr
     then \<exists>i. i < length arr \<and> arr ! i = k \<and>
            payload (terminal (steps_find_any arr k)) = Some (int i)
     else payload (terminal (steps_find_any arr k)) = Some (- 1))"
proof -
  have nr: "snd (steps_find_any arr k) = None"
    unfolding steps_find_any_def by (rule find_any_loop_no_raise) simp_all
  have dn: "done (terminal (steps_find_any arr k))"
    unfolding steps_find_any_def terminal_def
    using find_any_loop_shape[of 0 "int (length arr) - 1" arr k] by simp
  from find_any_terminal[OF assms, of k]
  have "if k \<in> set arr
     then \<exists>i. i < length arr \<and> arr ! i = k \<and>
            payload (terminal (steps_find_any arr k)) = Some (int i)
     else payload (terminal (steps_find_any arr k)) = Some (- 1)"
  proof (elim disjE exE conjE)
    fix m assume m: "0 \<le> m" "m < int (length arr)" "arr ! nat m = k"
      "payload (terminal (steps_find_any arr k)) = Some m"
    have "k \<in> set arr" using in_set_int[OF m(1,2)] m(3) by simp
    moreover have "nat m < length arr \<and> arr ! nat m = k \<and>
        payload (terminal (steps_find_any arr k)) = Some (int (nat m))"
      using m by (simp add: nat_less_iff)
    ultimately show ?thesis by auto
  next
    fix e assume e: "\<forall>i. 0 \<le> i \<and> i < e \<longrightarrow> arr ! nat i < k"
      "\<forall>i. e - 1 < i \<and> i < int (length arr) \<longrightarrow> k < arr ! nat i"
      "terminal (steps_find_any arr k) =
           mk_step e (e - 1) (if e + (e - 1) \<ge> 0 then (e + (e - 1)) div 2 else 0)
             ''final'' NonTrouve True (Some (- 1))"
    have "k \<notin> set arr" by (rule exhausted_not_in_set[OF e(1,2)])
    then show ?thesis by (simp add: e(3))
  qed
  with nr dn show ?thesis by blast
qed


theorem presence_correct_witness:
  "sorted [3, 5, 9, 9, 10 :: int] \<and>
   snd (steps_find_any [3, 5, 9, 9, 10] 9) = None \<and>
   done (terminal (steps_find_any [3, 5, 9, 9, 10] 9)) \<and>
   (\<exists>i. i < length [3, 5, 9, 9, 10 :: int] \<and> [3, 5, 9, 9, 10 :: int] ! i = 9 \<and>
        payload (terminal (steps_find_any [3, 5, 9, 9, 10] 9)) = Some (int i))"
  using presence_correct[of "[3, 5, 9, 9, 10]" 9] by simp

text \<open>
  C8. On the empty list each of the five generators yields exactly one step and returns:
  the step is the one after the loop (relation \<open>final\<close>), it has the \<open>done\<close> flag, and
  its payload is \<open>-1\<close> for the presence, first-occurrence and last-occurrence searches
  and \<open>0\<close> for the two insertion-point searches.
\<close>

theorem empty_sequence_traces:
  "steps_find_any [] k =
     ([mk_step 0 (- 1) 0 ''final'' NonTrouve True (Some (- 1))], None) \<and>
   steps_first_occurrence [] k =
     ([mk_step 0 (- 1) 0 ''final'' (PremiereOccurrence (- 1)) True (Some (- 1))], None) \<and>
   steps_last_occurrence [] k =
     ([mk_step 0 (- 1) (- 1) ''final'' (DerniereOccurrence (- 1)) True (Some (- 1))], None) \<and>
   steps_bisect_left [] k =
     ([mk_step 0 (- 1) 0 ''final'' (InsertionGauche 0) True (Some 0)], None) \<and>
   steps_bisect_right [] k =
     ([mk_step 0 (- 1) 0 ''final'' (InsertionDroite 0) True (Some 0)], None)"
proof -
  have "steps_find_any [] k =
     ([mk_step 0 (- 1) 0 ''final'' NonTrouve True (Some (- 1))], None)"
    by (simp add: steps_find_any_def find_any_loop.simps yield_def returned_def)
  moreover have "steps_first_occurrence [] k =
     ([mk_step 0 (- 1) 0 ''final'' (PremiereOccurrence (- 1)) True (Some (- 1))], None)"
    by (simp add: steps_first_occurrence_def first_occurrence_loop.simps yield_def returned_def)
  moreover have "steps_last_occurrence [] k =
     ([mk_step 0 (- 1) (- 1) ''final'' (DerniereOccurrence (- 1)) True (Some (- 1))], None)"
    by (simp add: steps_last_occurrence_def last_occurrence_loop.simps yield_def returned_def)
  moreover have "steps_bisect_left [] k =
     ([mk_step 0 (- 1) 0 ''final'' (InsertionGauche 0) True (Some 0)], None)"
    by (simp add: steps_bisect_left_def bisect_left_loop.simps yield_def returned_def)
  moreover have "steps_bisect_right [] k =
     ([mk_step 0 (- 1) 0 ''final'' (InsertionDroite 0) True (Some 0)], None)"
    by (simp add: steps_bisect_right_def bisect_right_loop.simps yield_def returned_def)
  ultimately show ?thesis by blast
qed

text \<open>
  C4. For every list (sorted or not) and every key, each of the five generators returns
  after finitely many steps: the run raises nothing, its trace has at most
  \<open>floorlog 2 n + 1\<close> steps, that is at most \<open>\<lfloor>log\<^sub>2 n\<rfloor> + 1\<close> loop iterations and the final
  step, and the interval shown by a step is strictly smaller than the interval shown by
  every earlier step, so each loop iteration strictly shrinks the search interval.
\<close>

theorem traces_logarithmic:
  "logarithmic_run arr (steps_find_any arr k) \<and>
   logarithmic_run arr (steps_first_occurrence arr k) \<and>
   logarithmic_run arr (steps_last_occurrence arr k) \<and>
   logarithmic_run arr (steps_bisect_left arr k) \<and>
   logarithmic_run arr (steps_bisect_right arr k)"
  by (intro conjI steps_find_any_logarithmic_run steps_first_occurrence_logarithmic_run
      steps_last_occurrence_logarithmic_run steps_bisect_left_logarithmic_run
      steps_bisect_right_logarithmic_run)

text \<open>
  C5. For every list and key, the trace of each of the five generators is not empty,
  holds exactly one step with the \<open>done\<close> flag, and that step is the last one.
\<close>

theorem traces_single_terminal_step:
  "single_terminal_step (steps_find_any arr k) \<and>
   single_terminal_step (steps_first_occurrence arr k) \<and>
   single_terminal_step (steps_last_occurrence arr k) \<and>
   single_terminal_step (steps_bisect_left arr k) \<and>
   single_terminal_step (steps_bisect_right arr k)"
  by (intro conjI steps_find_any_single_terminal_step
      steps_first_occurrence_single_terminal_step steps_last_occurrence_single_terminal_step
      steps_bisect_left_single_terminal_step steps_bisect_right_single_terminal_step)

text \<open>
  C10. For every list, sorted or not, and every key, no generator raises an IndexError,
  and every index at which a loop body reads the list lies between \<open>0\<close> and the length
  of the list, the length excluded.
\<close>

theorem generators_read_in_range:
  "reads_in_range arr (steps_find_any arr k) \<and>
   reads_in_range arr (steps_first_occurrence arr k) \<and>
   reads_in_range arr (steps_last_occurrence arr k) \<and>
   reads_in_range arr (steps_bisect_left arr k) \<and>
   reads_in_range arr (steps_bisect_right arr k)"
  by (intro conjI steps_find_any_reads_in_range steps_first_occurrence_reads_in_range
      steps_last_occurrence_reads_in_range steps_bisect_left_reads_in_range
      steps_bisect_right_reads_in_range)

theorem generators_read_in_range_witness:
  "reads_in_range [7, 2, 9, 4] (steps_find_any [7, 2, 9, 4] 9) \<and>
   reads_in_range [7, 2, 9, 4] (steps_first_occurrence [7, 2, 9, 4] 9) \<and>
   reads_in_range [7, 2, 9, 4] (steps_last_occurrence [7, 2, 9, 4] 9) \<and>
   reads_in_range [7, 2, 9, 4] (steps_bisect_left [7, 2, 9, 4] 9) \<and>
   reads_in_range [7, 2, 9, 4] (steps_bisect_right [7, 2, 9, 4] 9) \<and>
   map mid (trace (steps_find_any [7, 2, 9, 4] 9)) = [1, 2]"
proof -
  have "map mid (trace (steps_find_any [7, 2, 9, 4] 9)) = [1, 2]"
    by code_simp
  then show ?thesis using generators_read_in_range[of "[7, 2, 9, 4]" 9] by simp
qed

text \<open>
  C2. On a sorted list the terminal step of the first-occurrence search carries the
  smallest index at which the list holds the key, the terminal step of the
  last-occurrence search carries the largest such index, and both carry \<open>-1\<close> when the
  key does not occur.
\<close>

theorem occurrence_correct:
  assumes "sorted arr"
  shows "done (terminal (steps_first_occurrence arr k)) \<and>
    done (terminal (steps_last_occurrence arr k)) \<and>
    (if k \<in> set arr
     then (\<exists>i. i < length arr \<and> arr ! i = k \<and> (\<forall>j. j < i \<longrightarrow> arr ! j \<noteq> k) \<and>
             payload (terminal (steps_first_occurrence arr k)) = Some (int i)) \<and>
          (\<exists>i. i < length arr \<and> arr ! i = k \<and>
             (\<forall>j. i < j \<and> j < length arr \<longrightarrow> arr ! j \<noteq> k) \<and>
             payload (terminal (steps_last_occurrence arr k)) = Some (int i))
     else payload (terminal (steps_first_occurrence arr k)) = Some (- 1) \<and>
          payload (terminal (steps_last_occurrence arr k)) = Some (- 1))"
proof -
  have d1: "done (terminal (steps_first_occurrence arr k))"
    using steps_first_occurrence_single_terminal_step[of arr k]
    by (simp add: single_terminal_step_def)
  have d2: "done (terminal (steps_last_occurrence arr k))"
    using steps_last_occurrence_single_terminal_step[of arr k]
    by (simp add: single_terminal_step_def)
  note pf = first_occurrence_payload[OF assms, of k]
  note pl = last_occurrence_payload[OF assms, of k]
  show ?thesis
  proof (cases "k \<in> set arr")
    case True
    define c where "c = length (filter (\<lambda>y. y < k) arr)"
    define c' where "c' = length (filter (\<lambda>y. y \<le> k) arr)"
    note f = first_index_of[OF assms True, folded c_def]
    note l = last_index_of[OF assms True, folded c'_def]
    have "c < length arr \<and> arr ! c = k \<and> (\<forall>j. j < c \<longrightarrow> arr ! j \<noteq> k) \<and>
          payload (terminal (steps_first_occurrence arr k)) = Some (int c)"
      using f pf True unfolding c_def by simp
    then have a: "\<exists>i. i < length arr \<and> arr ! i = k \<and> (\<forall>j. j < i \<longrightarrow> arr ! j \<noteq> k) \<and>
          payload (terminal (steps_first_occurrence arr k)) = Some (int i)"
      by (rule exI)
    have ic: "int c' - 1 = int (c' - 1)" using l(1) by simp
    have lt: "c' - 1 < length arr" using l(1,2) by simp
    have "payload (terminal (steps_last_occurrence arr k)) = Some (int (c' - 1))"
      using pl True unfolding c'_def[symmetric] ic by simp
    then have "c' - 1 < length arr \<and> arr ! (c' - 1) = k \<and>
          (\<forall>j. c' - 1 < j \<and> j < length arr \<longrightarrow> arr ! j \<noteq> k) \<and>
          payload (terminal (steps_last_occurrence arr k)) = Some (int (c' - 1))"
      using lt l(3,4) by blast
    then have b: "\<exists>i. i < length arr \<and> arr ! i = k \<and>
          (\<forall>j. i < j \<and> j < length arr \<longrightarrow> arr ! j \<noteq> k) \<and>
          payload (terminal (steps_last_occurrence arr k)) = Some (int i)"
      by (rule exI)
    show ?thesis using d1 d2 a b True by (simp only: if_True simp_thms)
  next
    case False
    show ?thesis using d1 d2 pf pl False by simp
  qed
qed

theorem occurrence_correct_witness:
  "sorted [3, 5, 9, 9, 10 :: int] \<and>
   (\<exists>i. i < length [3, 5, 9, 9, 10 :: int] \<and> [3, 5, 9, 9, 10 :: int] ! i = 9 \<and>
        (\<forall>j. j < i \<longrightarrow> [3, 5, 9, 9, 10 :: int] ! j \<noteq> 9) \<and>
        payload (terminal (steps_first_occurrence [3, 5, 9, 9, 10] 9)) = Some (int i)) \<and>
   (\<exists>i. i < length [3, 5, 9, 9, 10 :: int] \<and> [3, 5, 9, 9, 10 :: int] ! i = 9 \<and>
        (\<forall>j. i < j \<and> j < length [3, 5, 9, 9, 10 :: int] \<longrightarrow> [3, 5, 9, 9, 10 :: int] ! j \<noteq> 9) \<and>
        payload (terminal (steps_last_occurrence [3, 5, 9, 9, 10] 9)) = Some (int i))"
  using occurrence_correct[of "[3, 5, 9, 9, 10]" 9] by simp

text \<open>
  C3. On a sorted list of length \<open>n\<close> the terminal step of the leftmost-insertion search
  carries the number of elements strictly below the key, the terminal step of the
  rightmost-insertion search carries the number of elements not above the key, and both
  payloads lie between \<open>0\<close> and \<open>n\<close>.
\<close>

theorem bisect_correct:
  assumes "sorted arr"
  shows "\<exists>l r.
    payload (terminal (steps_bisect_left arr k)) = Some l \<and>
    payload (terminal (steps_bisect_right arr k)) = Some r \<and>
    l = int (length (filter (\<lambda>y. y < k) arr)) \<and>
    r = int (length (filter (\<lambda>y. y \<le> k) arr)) \<and>
    0 \<le> l \<and> l \<le> int (length arr) \<and> 0 \<le> r \<and> r \<le> int (length arr)"
proof -
  have "payload (terminal (steps_bisect_left arr k)) =
          Some (int (length (filter (\<lambda>y. y < k) arr)))"
    by (simp add: bisect_left_terminal[OF assms])
  moreover have "payload (terminal (steps_bisect_right arr k)) =
          Some (int (length (filter (\<lambda>y. y \<le> k) arr)))"
    by (simp add: bisect_right_terminal[OF assms])
  ultimately show ?thesis by simp
qed

theorem bisect_correct_witness:
  "sorted [3, 5, 9, 9, 10 :: int] \<and>
   payload (terminal (steps_bisect_left [3, 5, 9, 9, 10] 9)) = Some 2 \<and>
   payload (terminal (steps_bisect_right [3, 5, 9, 9, 10] 9)) = Some 4"
  using bisect_correct[of "[3, 5, 9, 9, 10]" 9] by simp

text \<open>
  C6. On a sorted list the payload of the leftmost-insertion search is at most the
  payload of the rightmost-insertion search, and the two are equal exactly when the key
  does not occur in the list.
\<close>

theorem bisect_ordering:
  assumes "sorted arr"
  shows "\<exists>l r.
    payload (terminal (steps_bisect_left arr k)) = Some l \<and>
    payload (terminal (steps_bisect_right arr k)) = Some r \<and>
    l \<le> r \<and> (l = r \<longleftrightarrow> k \<notin> set arr)"
proof -
  have "payload (terminal (steps_bisect_left arr k)) =
          Some (int (length (filter (\<lambda>y. y < k) arr)))"
    by (simp add: bisect_left_terminal[OF assms])
  moreover have "payload (terminal (steps_bisect_right arr k)) =
          Some (int (length (filter (\<lambda>y. y \<le> k) arr)))"
    by (simp add: bisect_right_terminal[OF assms])
  moreover have "int (length (filter (\<lambda>y. y < k) arr)) \<le> int (length (filter (\<lambda>y. y \<le> k) arr))"
    unfolding count_le_split[of k arr] by simp
  moreover have "int (length (filter (\<lambda>y. y < k) arr)) = int (length (filter (\<lambda>y. y \<le> k) arr))
      \<longleftrightarrow> k \<notin> set arr"
    unfolding count_le_split[of k arr] using count_eq_zero_iff[of k arr] by simp
  ultimately show ?thesis by blast
qed

theorem bisect_ordering_witness:
  "sorted [3, 5, 9, 9, 10 :: int] \<and>
   (\<exists>l r. payload (terminal (steps_bisect_left [3, 5, 9, 9, 10] 11)) = Some l \<and>
          payload (terminal (steps_bisect_right [3, 5, 9, 9, 10] 11)) = Some r \<and>
          l \<le> r \<and> l = r)"
  using bisect_ordering[of "[3, 5, 9, 9, 10]" 11] by simp

text \<open>
  C7. On a sorted list the number of occurrences that \<open>run_count_occurrences\<close> reports
  is the result of the rightmost-insertion run minus the result of the
  leftmost-insertion run; the reported range is \<open>[-1, -1]\<close> when the key does not
  occur, and runs from the first to the last index of the key when it does.
\<close>

theorem count_identity:
  assumes "sorted arr"
  shows "\<exists>b l r.
    run_count_occurrences arr k = Inr b \<and>
    run_steps arr k steps_bisect_left = Inr (Some l) \<and>
    run_steps arr k steps_bisect_right = Inr (Some r) \<and>
    nb_occurrences b = r - l \<and>
    plage b = (if k \<in> set arr then (l, Some (r - 1)) else (- 1, Some (- 1)))"
proof -
  define c where "c = length (filter (\<lambda>y. y < k) arr)"
  define c' where "c' = length (filter (\<lambda>y. y \<le> k) arr)"
  have bl: "run_steps arr k steps_bisect_left = Inr (Some (int c))"
    unfolding run_steps_bisect_left c_def by (simp add: bisect_left_terminal[OF assms])
  have br: "run_steps arr k steps_bisect_right = Inr (Some (int c'))"
    unfolding run_steps_bisect_right c'_def by (simp add: bisect_right_terminal[OF assms])
  have fo: "run_steps arr k steps_first_occurrence =
      Inr (Some (if k \<in> set arr then int c else - 1))"
    unfolding run_steps_first_occurrence c_def first_occurrence_payload[OF assms] ..
  have lo: "run_steps arr k steps_last_occurrence =
      Inr (Some (if k \<in> set arr then int c' - 1 else - 1))"
    unfolding run_steps_last_occurrence c'_def last_occurrence_payload[OF assms] ..
  have split: "c' = c + length (filter (\<lambda>y. y = k) arr)"
    unfolding c_def c'_def by (rule count_le_split)
  show ?thesis
  proof (cases "k \<in> set arr")
    case True
    have "length (filter (\<lambda>y. y = k) arr) \<noteq> 0"
      using True count_eq_zero_iff[of k arr] by simp
    then have lt: "int c < int c'" using split by simp
    have "run_count_occurrences arr k =
        Inr \<lparr>nb_occurrences = int c' - int c, plage = (int c, Some (int c' - 1))\<rparr>"
      unfolding run_count_occurrences_def fo lo using True lt by (simp add: Let_def)
    then show ?thesis using bl br True by simp
  next
    case False
    have "length (filter (\<lambda>y. y = k) arr) = 0"
      using False count_eq_zero_iff[of k arr] by simp
    then have eq: "int c' = int c" using split by simp
    have "run_count_occurrences arr k =
        Inr \<lparr>nb_occurrences = 0, plage = (- 1, Some (- 1))\<rparr>"
      unfolding run_count_occurrences_def fo lo using False by simp
    then show ?thesis using bl br False eq by simp
  qed
qed

theorem count_identity_witness:
  "sorted [1, 1, 2, 2, 2, 3, 3, 5 :: int] \<and>
   (\<exists>b l r. run_count_occurrences [1, 1, 2, 2, 2, 3, 3, 5] 2 = Inr b \<and>
      run_steps [1, 1, 2, 2, 2, 3, 3, 5] 2 steps_bisect_left = Inr (Some l) \<and>
      run_steps [1, 1, 2, 2, 2, 3, 3, 5] 2 steps_bisect_right = Inr (Some r) \<and>
      nb_occurrences b = r - l \<and> plage b = (l, Some (r - 1)))"
  using count_identity[of "[1, 1, 2, 2, 2, 3, 3, 5]" 2] by simp

text \<open>
  C9. The claim says that the presence search can end with \<open>left > right\<close> and
  \<open>left + right < 0\<close> only on the empty list. It also ends so on a list whose elements
  are all above the key: on \<open>[5]\<close> with key \<open>3\<close> the final step shows \<open>left = 0\<close> and
  \<open>right = -1\<close>.
\<close>

theorem presence_negative_sum_counterexample:
  "sorted [5 :: int] \<and> [5 :: int] \<noteq> [] \<and>
   relation (terminal (steps_find_any [5] 3)) = ''final'' \<and>
   right (terminal (steps_find_any [5] 3)) < left (terminal (steps_find_any [5] 3)) \<and>
   left (terminal (steps_find_any [5] 3)) + right (terminal (steps_find_any [5] 3)) < 0"
proof -
  have "terminal (steps_find_any [5] 3) =
      mk_step 0 (- 1) 0 ''final'' NonTrouve True (Some (- 1))"
    by code_simp
  then show ?thesis by simp
qed

text \<open>
  C9, as the code has it. On a sorted list the presence search ends on a final step with
  \<open>left + right < 0\<close> exactly when the list is empty or the key is below its first
  element; in each such case \<open>left = 0\<close>, \<open>right = -1\<close> and the \<open>mid\<close> of the final step
  is \<open>0\<close>.
\<close>

theorem presence_negative_sum:
  assumes srt: "sorted arr"
  shows "((relation (terminal (steps_find_any arr k)) = ''final'' \<and>
           left (terminal (steps_find_any arr k)) + right (terminal (steps_find_any arr k)) < 0)
          \<longleftrightarrow> (arr = [] \<or> k < hd arr)) \<and>
         (relation (terminal (steps_find_any arr k)) = ''final'' \<and>
           left (terminal (steps_find_any arr k)) + right (terminal (steps_find_any arr k)) < 0
          \<longrightarrow> left (terminal (steps_find_any arr k)) = 0 \<and>
              right (terminal (steps_find_any arr k)) = - 1 \<and>
              mid (terminal (steps_find_any arr k)) = 0)"
  using find_any_terminal[OF srt, of k]
proof (elim disjE exE conjE)
  fix m assume m: "0 \<le> m" "m < int (length arr)" "arr ! nat m = k"
    and rel: "relation (terminal (steps_find_any arr k)) = ''==''"
  have ne: "arr \<noteq> []" using m(1,2) by auto
  have "arr ! nat 0 \<le> arr ! nat m" using sorted_nth_int[OF srt, of 0 m] m(1,2) by simp
  then have "hd arr \<le> k" using m(3) ne by (simp add: hd_conv_nth)
  then show ?thesis using rel ne by simp
next
  fix e assume e: "0 \<le> e" "e \<le> int (length arr)"
    and pre: "\<forall>i. 0 \<le> i \<and> i < e \<longrightarrow> arr ! nat i < k"
    and suf: "\<forall>i. e - 1 < i \<and> i < int (length arr) \<longrightarrow> k < arr ! nat i"
    and t: "terminal (steps_find_any arr k) =
           mk_step e (e - 1) (if e + (e - 1) \<ge> 0 then (e + (e - 1)) div 2 else 0)
             ''final'' NonTrouve True (Some (- 1))"
  have iff: "e = 0 \<longleftrightarrow> (arr = [] \<or> k < hd arr)"
  proof (cases "arr = []")
    case True
    then show ?thesis using e by simp
  next
    case False
    then have n: "0 < int (length arr)" by simp
    have h: "hd arr = arr ! nat 0" using False by (simp add: hd_conv_nth)
    show ?thesis
    proof
      assume "e = 0"
      then have "k < arr ! nat 0" using suf[rule_format, of 0] n by simp
      then show "arr = [] \<or> k < hd arr" unfolding h by simp
    next
      assume "arr = [] \<or> k < hd arr"
      then have kh: "k < arr ! nat 0" using False unfolding h by simp
      show "e = 0"
      proof (rule ccontr)
        assume "e \<noteq> 0"
        then have "0 < e" using e(1) by simp
        then have "arr ! nat 0 < k" using pre[rule_format, of 0] by simp
        then show False using kh by simp
      qed
    qed
  qed
  have neg: "e + (e - 1) < 0 \<longleftrightarrow> e = 0" using e(1) by linarith
  show ?thesis unfolding t using iff neg by auto
qed

theorem presence_negative_sum_witness:
  "sorted [5, 8 :: int] \<and>
   relation (terminal (steps_find_any [5, 8] 3)) = ''final'' \<and>
   left (terminal (steps_find_any [5, 8] 3)) = 0 \<and>
   right (terminal (steps_find_any [5, 8] 3)) = - 1 \<and>
   mid (terminal (steps_find_any [5, 8] 3)) = 0"
  using presence_negative_sum[of "[5, 8]" 3] by simp
end
